theory Spec2Isabelle
  imports Main
begin

section \<open>Values, errors and the collaborators of the manager\<close>

text \<open>
  The values that flow through the manager are JavaScript primitives. The model covers
  \<open>undefined\<close>, \<open>null\<close>, \<open>NaN\<close>, the integer-valued numbers and strings. \<open>Num n\<close> is
  the number \<open>n\<close>, for \<open>n\<close> an integer that a double holds exactly (every integer up to
  \<open>2^53\<close> in size is one). Fractions, infinities, booleans and object-valued properties are
  outside the model.
\<close>

datatype jsval = Undefined | Null | NaN | Num int | Str string

text \<open>\<open>throw Error(msg)\<close> is \<open>Error msg\<close>; what the engine itself throws is a \<open>TypeError\<close>.\<close>

datatype error = Error string | TypeError string

text \<open>
  The source compares ids with \<open>==\<close>. Between a number and a string JavaScript converts
  the string to a number first. That conversion belongs to the engine, not to the
  program, and the model takes it as a parameter: \<open>N s = Some n\<close> when the string \<open>s\<close>
  converts to the integer-valued number \<open>n\<close>, and \<open>N s = None\<close> when it converts to
  anything else. What is proved below holds for every conversion. \<open>NaN\<close> equals nothing,
  itself included, and \<open>undefined\<close> and \<open>null\<close> equal each other and nothing else.
\<close>

type_synonym conversion = "string \<Rightarrow> int option"

fun loose_eq :: "conversion \<Rightarrow> jsval \<Rightarrow> jsval \<Rightarrow> bool" where
  "loose_eq N Undefined Undefined = True"
| "loose_eq N Undefined Null = True"
| "loose_eq N Null Undefined = True"
| "loose_eq N Null Null = True"
| "loose_eq N (Num a) (Num b) = (a = b)"
| "loose_eq N (Str a) (Str b) = (a = b)"
| "loose_eq N (Num a) (Str b) = (N b = Some a)"
| "loose_eq N (Str a) (Num b) = (N a = Some b)"
| "loose_eq N _ _ = False"

text \<open>A plain JavaScript object with primitive members; \<open>lookup m k\<close> is \<open>m[k]\<close>.\<close>

type_synonym fields = "string \<rightharpoonup> jsval"

definition lookup :: "fields \<Rightarrow> string \<Rightarrow> jsval" where
  "lookup m k = (case m k of None \<Rightarrow> Undefined | Some v \<Rightarrow> v)"

text \<open>
  A property definition of a schema. \<open>transform\<close> and \<open>reverseTransform\<close> are supplied by
  the schema; they are modelled as functions of the input value that return or throw
  (their second argument, the manager, is not used by the model), and \<open>None\<close> stands
  for a definition without that member.
\<close>

record property =
  transform :: "(jsval \<Rightarrow> error + jsval) option"
  reverseTransform :: "(jsval \<Rightarrow> error + jsval) option"
  readable :: bool
  writable :: bool
  persistable :: bool

text \<open>
  An entity class is a constructor function supplied by the caller. The manager reads
  four things from it: \<open>entityClass.$name\<close> as a property key (\<open>c_name\<close>; it is the
  key \<open>'undefined'\<close> for a class that carries \<open>$name\<close> on its prototype only, where
  \<open>prepareEntity\<close>, lines 300-309, puts it), the schema on its prototype in
  enumeration order (the keys of a JavaScript object are distinct), the function
  itself (\<open>entityClass.call(x)\<close>, used by the proxy constructor) and the member
  \<open>entityClass.constructor\<close> (used by \<open>create\<close>). A function that does not define
  \<open>constructor\<close> itself inherits \<open>Function\<close>: that is \<open>c_constructor = None\<close>.
  A constructor body is modelled by its effect on the own data properties of the
  instance outside the schema. Schema names that collide with the members the code
  itself puts on an instance (\<open>$values\<close>, \<open>$raw\<close>, \<open>$dirty\<close>, \<open>object\<close>, \<open>load\<close>,
  \<open>addProperty\<close>) or with a member that every plain object inherits are outside the
  model.
\<close>

type_synonym hook = "fields \<Rightarrow> fields"

record entityClass =
  c_name :: string
  c_schema :: "(string \<times> property) list"
  c_call :: hook
  c_constructor :: "hook option"

section \<open>The store\<close>

type_synonym addr = nat

text \<open>
  An entity as \<open>create\<close> builds it: \<open>$values\<close>, \<open>$raw\<close>, \<open>$dirty\<close>, the accessors
  installed by \<open>defineProperty\<close> (each closes over its property definition) and the
  other own data properties.
\<close>

record entity =
  e_proto :: entityClass
  e_values :: fields
  e_raw :: fields
  e_dirty :: bool
  e_accessors :: "string \<rightharpoonup> property"
  e_fields :: fields

text \<open>
  An instance of a proxy class: the entity class its class closes over, the captured
  \<open>id\<close>, \<open>this.object\<close> (\<open>None\<close> is \<open>undefined\<close>), the names that got a forwarding
  accessor and the other own data properties.
\<close>

record proxy =
  p_class :: entityClass
  p_id :: jsval
  p_object :: "addr option"
  p_forwards :: "string list"
  p_fields :: fields

datatype obj = Entity entity | Proxy proxy

text \<open>
  The state of one \<open>ObjectManager\<close> with its \<open>ProxyFactory\<close>: the objects allocated so
  far, the arrays that \<open>objectMap\<close> owns (keyed by \<open>$name\<close>), \<open>proxyClasses\<close> (a proxy
  class is represented by the entity class it closes over), and the engine's
  conversion of strings to numbers, which no operation changes.
\<close>

record state =
  heap :: "addr \<rightharpoonup> obj"
  fresh :: addr
  objectMap :: "string \<rightharpoonup> addr list"
  proxyClasses :: "string \<rightharpoonup> entityClass"
  toNumber :: conversion

definition init_state :: "conversion \<Rightarrow> state" where
  "init_state N =
     \<lparr>heap = Map.empty, fresh = 0, objectMap = Map.empty, proxyClasses = Map.empty,
      toNumber = N\<rparr>"

definition alloc :: "obj \<Rightarrow> state \<Rightarrow> state" where
  "alloc ob s = s\<lparr>heap := (heap s)(fresh s \<mapsto> ob), fresh := Suc (fresh s)\<rparr>"

section \<open>Property access\<close>

text \<open>Reading \<open>entity[n]\<close>: the getter of lines 140-142 when the accessor has one.\<close>

definition entity_get :: "entity \<Rightarrow> string \<Rightarrow> jsval" where
  "entity_get e n =
     (case e_accessors e n of
        Some p \<Rightarrow> if readable p then lookup (e_values e) n else Undefined
      | None \<Rightarrow> lookup (e_fields e) n)"

text \<open>
  Assigning \<open>entity[n] = v\<close> from strict code: the setter of lines 146-149 marks the
  entity dirty before it calls the transform; an accessor without a setter throws.
\<close>

definition entity_set :: "entity \<Rightarrow> string \<Rightarrow> jsval \<Rightarrow> (error + unit) \<times> entity" where
  "entity_set e n v =
     (case e_accessors e n of
        Some p \<Rightarrow>
          if writable p then
            (let e1 = e\<lparr>e_dirty := True\<rparr> in
             case transform p of
               None \<Rightarrow> (Inl (TypeError ''property.transform is not a function''), e1)
             | Some t \<Rightarrow>
                 (case t v of
                    Inl x \<Rightarrow> (Inl x, e1)
                  | Inr w \<Rightarrow> (Inr (), e1\<lparr>e_values := (e_values e1)(n \<mapsto> w)\<rparr>)))
          else (Inl (TypeError ''Cannot set property which has only a getter''), e)
      | None \<Rightarrow> (Inr (), e\<lparr>e_fields := (e_fields e)(n \<mapsto> v)\<rparr>))"

text \<open>
  Reading \<open>x[n]\<close> through a reference. On a proxy a forwarded name runs \<open>load\<close> and
  then reads the delegate (lines 28-31); \<open>id\<close> answers the captured id (lines 48-53).
  The manager binds only fresh entities as delegates (line 211), so the delegate of a
  proxy is read as an entity.
\<close>

definition get_prop :: "state \<Rightarrow> addr \<Rightarrow> string \<Rightarrow> error + jsval" where
  "get_prop s a n =
     (case heap s a of
        Some (Entity e) \<Rightarrow> Inr (entity_get e n)
      | Some (Proxy p) \<Rightarrow>
          if n \<in> set (p_forwards p) then
            (case p_object p of
               None \<Rightarrow> Inl (Error ''Entity cannot be loaded'')
             | Some b \<Rightarrow>
                 (case heap s b of
                    Some (Entity e) \<Rightarrow> Inr (entity_get e n)
                  | _ \<Rightarrow> Inl (TypeError ''delegate is not an entity'')))
          else if n = ''id'' then Inr (p_id p)
          else Inr (lookup (p_fields p) n)
      | None \<Rightarrow> Inl (TypeError ''no such object''))"

definition set_prop :: "state \<Rightarrow> addr \<Rightarrow> string \<Rightarrow> jsval \<Rightarrow> (error + unit) \<times> state" where
  "set_prop s a n v =
     (case heap s a of
        Some (Entity e) \<Rightarrow>
          (case entity_set e n v of (r, e') \<Rightarrow> (r, s\<lparr>heap := (heap s)(a \<mapsto> Entity e')\<rparr>))
      | Some (Proxy p) \<Rightarrow>
          if n \<in> set (p_forwards p) then
            (case p_object p of
               None \<Rightarrow> (Inl (Error ''Entity cannot be loaded''), s)
             | Some b \<Rightarrow>
                 (case heap s b of
                    Some (Entity e) \<Rightarrow>
                      (case entity_set e n v of
                         (r, e') \<Rightarrow> (r, s\<lparr>heap := (heap s)(b \<mapsto> Entity e')\<rparr>))
                  | _ \<Rightarrow> (Inl (TypeError ''delegate is not an entity''), s)))
          else if n = ''id'' then
            (Inl (TypeError ''Cannot set property id which has only a getter''), s)
          else (Inr (), s\<lparr>heap := (heap s)(a \<mapsto> Proxy (p\<lparr>p_fields := (p_fields p)(n \<mapsto> v)\<rparr>))\<rparr>)
      | None \<Rightarrow> (Inl (TypeError ''no such object''), s))"

section \<open>ProxyFactory\<close>

text \<open>
  \<open>createProxyClass(E)\<close> (lines 14-62) builds a class that closes over \<open>E\<close>; the class
  is represented by \<open>E\<close>. Its constructor (lines 15-56): \<open>object\<close> is unset, every
  schema name but \<open>id\<close> gets a forwarding accessor, and \<open>E\<close> itself is called on the
  new proxy.
\<close>

definition new_Proxy :: "entityClass \<Rightarrow> jsval \<Rightarrow> proxy" where
  "new_Proxy E i =
     \<lparr>p_class = E, p_id = i, p_object = None,
      p_forwards = filter (\<lambda>n. n \<noteq> ''id'') (map fst (c_schema E)),
      p_fields = c_call E Map.empty\<rparr>"

text \<open>\<open>getProxyClass\<close> (lines 64-69): one class per key \<open>$name + 'Proxy'\<close>, built once.\<close>

definition getProxyClass :: "entityClass \<Rightarrow> state \<Rightarrow> entityClass \<times> state" where
  "getProxyClass C s =
     (let k = c_name C @ ''Proxy'' in
      case proxyClasses s k of
        Some E \<Rightarrow> (E, s)
      | None \<Rightarrow> (C, s\<lparr>proxyClasses := (proxyClasses s)(k \<mapsto> C)\<rparr>))"

definition ProxyFactory_createProxy :: "entityClass \<Rightarrow> jsval \<Rightarrow> state \<Rightarrow> addr \<times> state" where
  "ProxyFactory_createProxy C i s =
     (case getProxyClass C s of (E, s1) \<Rightarrow> (fresh s1, alloc (Proxy (new_Proxy E i)) s1))"

text \<open>
  \<open>x instanceof P\<close> for a proxy class \<open>P\<close>. The factory keeps one class per key, so two
  proxy classes are the same class exactly when the names they were cached under
  agree; an entity never has a proxy class on its prototype chain.
\<close>

definition instanceof :: "state \<Rightarrow> addr \<Rightarrow> entityClass \<Rightarrow> bool" where
  "instanceof s a P =
     (case heap s a of Some (Proxy p) \<Rightarrow> c_name (p_class p) = c_name P | _ \<Rightarrow> False)"

section \<open>ObjectManager\<close>

text \<open>
  \<open>objectMap\<close> is a plain object (line 83), so besides the arrays the code stores in it
  it answers for the members every plain object inherits. The state records the arrays;
  \<open>inherited_key\<close> lists the inherited names.
\<close>

definition inherited_key :: "string \<Rightarrow> bool" where
  "inherited_key n =
     (n \<in> set [''constructor'', ''toString'', ''toLocaleString'', ''valueOf'',
               ''hasOwnProperty'', ''isPrototypeOf'', ''propertyIsEnumerable'', ''__proto__'',
               ''__defineGetter__'', ''__defineSetter__'', ''__lookupGetter__'',
               ''__lookupSetter__''])"

definition bucket :: "state \<Rightarrow> string \<Rightarrow> addr list" where
  "bucket s n = (case objectMap s n of None \<Rightarrow> [] | Some b \<Rightarrow> b)"

text \<open>
  \<open>addToObjectMap\<close> (lines 91-97). Under a name that \<open>objectMap\<close> inherits and holds no
  array for, \<open>objectMap[name] || []\<close> is the inherited member, which has no \<open>indexOf\<close>:
  line 94 throws and nothing is stored.
\<close>

definition addToObjectMap :: "entityClass \<Rightarrow> addr \<Rightarrow> state \<Rightarrow> (error + unit) \<times> state" where
  "addToObjectMap C a s =
     (if objectMap s (c_name C) = None \<and> inherited_key (c_name C)
      then (Inl (TypeError ''objectMap[name].indexOf is not a function''), s)
      else (let b = bucket s (c_name C) in
            (Inr (), s\<lparr>objectMap := (objectMap s)(c_name C \<mapsto> (if a \<in> set b then b else b @ [a]))\<rparr>)))"

text \<open>\<open>map[i].id\<close> of line 115.\<close>

definition obj_id :: "state \<Rightarrow> addr \<Rightarrow> jsval" where
  "obj_id s a =
     (case heap s a of
        Some (Entity e) \<Rightarrow> entity_get e ''id''
      | Some (Proxy p) \<Rightarrow> p_id p
      | None \<Rightarrow> Undefined)"

text \<open>
  \<open>getFromObjectMap\<close> (lines 106-120); \<open>None\<close> is \<open>null\<close>. Under an inherited name
  without an array the test of line 110 passes, and the loop of line 114 runs over an
  inherited member, which has no enumerable property: the answer is \<open>null\<close> as well.
\<close>

definition getFromObjectMap :: "entityClass \<Rightarrow> jsval \<Rightarrow> state \<Rightarrow> addr option" where
  "getFromObjectMap C i s =
     (if i = Undefined then None
      else case objectMap s (c_name C) of
             None \<Rightarrow> None
           | Some b \<Rightarrow> find (\<lambda>a. loose_eq (toNumber s) (obj_id s a) i) b)"

text \<open>
  \<open>loadPropertyValue\<close> (lines 166-169): \<open>$raw\<close> is written before the transform is
  called, so it stays written when the transform throws.
\<close>

definition loadPropertyValue ::
  "entity \<Rightarrow> string \<Rightarrow> property \<Rightarrow> fields \<Rightarrow> (error + unit) \<times> entity" where
  "loadPropertyValue e n p d =
     (let e1 = e\<lparr>e_raw := (e_raw e)(n \<mapsto> lookup d n)\<rparr> in
      case transform p of
        None \<Rightarrow> (Inl (TypeError ''property.transform is not a function''), e1)
      | Some t \<Rightarrow>
          (case t (lookup d n) of
             Inl x \<Rightarrow> (Inl x, e1)
           | Inr v \<Rightarrow> (Inr (), e1\<lparr>e_values := (e_values e1)(n \<mapsto> v)\<rparr>)))"

text \<open>\<open>defineProperty\<close> (lines 130-155).\<close>

definition defineProperty ::
  "entity \<Rightarrow> string \<Rightarrow> property \<Rightarrow> fields \<Rightarrow> (error + unit) \<times> entity" where
  "defineProperty e n p d =
     (if transform p = None then (Inl (Error ''transform is mandatory''), e)
      else case loadPropertyValue e n p d of
             (Inl x, e1) \<Rightarrow> (Inl x, e1)
           | (Inr u, e1) \<Rightarrow> (Inr (), e1\<lparr>e_accessors := (e_accessors e1)(n \<mapsto> p)\<rparr>))"

text \<open>The loop of lines 200-202; it stops at the first property that throws.\<close>

fun defineProperties ::
  "entity \<Rightarrow> (string \<times> property) list \<Rightarrow> fields \<Rightarrow> (error + unit) \<times> entity" where
  "defineProperties e [] d = (Inr (), e)"
| "defineProperties e ((n, p) # ps) d =
     (case defineProperty e n p d of
        (Inl x, e1) \<Rightarrow> (Inl x, e1)
      | (Inr u, e1) \<Rightarrow> defineProperties e1 ps d)"

text \<open>The loop of \<open>update\<close> (lines 178-180).\<close>

fun loadProperties ::
  "entity \<Rightarrow> (string \<times> property) list \<Rightarrow> fields \<Rightarrow> (error + unit) \<times> entity" where
  "loadProperties e [] d = (Inr (), e)"
| "loadProperties e ((n, p) # ps) d =
     (case loadPropertyValue e n p d of
        (Inl x, e1) \<Rightarrow> (Inl x, e1)
      | (Inr u, e1) \<Rightarrow> loadProperties e1 ps d)"

text \<open>
  \<open>update\<close> (lines 177-181). A proxy has no \<open>$raw\<close>, so the first property of a
  non-empty schema throws there.
\<close>

definition update :: "addr \<Rightarrow> fields \<Rightarrow> state \<Rightarrow> (error + unit) \<times> state" where
  "update existing d s =
     (case heap s existing of
        Some (Entity e) \<Rightarrow>
          (case loadProperties e (c_schema (e_proto e)) d of
             (r, e1) \<Rightarrow> (r, s\<lparr>heap := (heap s)(existing \<mapsto> Entity e1)\<rparr>))
      | Some (Proxy p) \<Rightarrow>
          (case c_schema (p_class p) of
             [] \<Rightarrow> (Inr (), s)
           | _ \<Rightarrow> (Inl (TypeError ''Cannot set properties of undefined''), s))
      | None \<Rightarrow> (Inl (TypeError ''no such object''), s))"

text \<open>
  \<open>entityClass.constructor.call(x)\<close> (lines 213 and 216). When the class does not
  define \<open>constructor\<close>, the callee is \<open>Function\<close>, which builds an empty function and
  leaves \<open>x\<close> alone.
\<close>

definition constructor_call :: "entityClass \<Rightarrow> hook" where
  "constructor_call C f = (case c_constructor C of None \<Rightarrow> f | Some h \<Rightarrow> h f)"

definition run_hook :: "hook \<Rightarrow> addr \<Rightarrow> state \<Rightarrow> state" where
  "run_hook h a s =
     (case heap s a of
        Some (Entity e) \<Rightarrow> s\<lparr>heap := (heap s)(a \<mapsto> Entity (e\<lparr>e_fields := h (e_fields e)\<rparr>))\<rparr>
      | Some (Proxy p) \<Rightarrow> s\<lparr>heap := (heap s)(a \<mapsto> Proxy (p\<lparr>p_fields := h (p_fields p)\<rparr>))\<rparr>
      | None \<Rightarrow> s)"

text \<open>\<open>existing.object = entity\<close> (line 211).\<close>

definition set_object :: "addr \<Rightarrow> addr \<Rightarrow> state \<Rightarrow> state" where
  "set_object existing entity s =
     (case heap s existing of
        Some (Proxy p) \<Rightarrow> s\<lparr>heap := (heap s)(existing \<mapsto> Proxy (p\<lparr>p_object := Some entity\<rparr>))\<rparr>
      | _ \<Rightarrow> s)"

text \<open>\<open>data || {}\<close> (line 198); \<open>None\<close> is a call without data.\<close>

definition or_empty :: "fields option \<Rightarrow> fields" where
  "or_empty data = (case data of None \<Rightarrow> Map.empty | Some d \<Rightarrow> d)"

text \<open>The object of lines 192-196, before any property is defined on it.\<close>

definition blank :: "entityClass \<Rightarrow> entity" where
  "blank C = \<lparr>e_proto = C, e_values = Map.empty, e_raw = Map.empty, e_dirty = False,
              e_accessors = Map.empty, e_fields = Map.empty\<rparr>"

text \<open>
  \<open>create\<close> (lines 191-220). The fresh entity is allocated first; its properties are
  built before the identity map is consulted, and a fresh entity is registered after
  the constructor call (lines 216-218).
\<close>

definition create :: "entityClass \<Rightarrow> fields option \<Rightarrow> state \<Rightarrow> (error + addr) \<times> state" where
  "create C data s =
     (let entity = fresh s;
          d = or_empty data
      in case defineProperties (blank C) (c_schema C) d of
           (Inl x, e) \<Rightarrow> (Inl x, alloc (Entity e) s)
         | (Inr u, e) \<Rightarrow>
             (let s1 = alloc (Entity e) s in
              case getFromObjectMap C (lookup d ''id'') s1 of
                Some existing \<Rightarrow>
                  (case getProxyClass C s1 of
                     (P, s2) \<Rightarrow>
                       if \<not> instanceof s2 existing P then
                         (case update existing d s2 of
                            (Inl x, s3) \<Rightarrow> (Inl x, s3)
                          | (Inr u, s3) \<Rightarrow> (Inr existing, s3))
                       else
                         (Inr existing,
                          run_hook (constructor_call C) existing (set_object existing entity s2)))
              | None \<Rightarrow>
                  (case addToObjectMap C entity (run_hook (constructor_call C) entity s1) of
                     (Inl x, s2) \<Rightarrow> (Inl x, s2)
                   | (Inr u, s2) \<Rightarrow> (Inr entity, s2))))"

text \<open>\<open>get\<close> (lines 230-237).\<close>

definition get :: "entityClass \<Rightarrow> jsval \<Rightarrow> state \<Rightarrow> (error + addr) \<times> state" where
  "get C i s =
     (case getFromObjectMap C i s of
        None \<Rightarrow> (Inl (Error ''not loaded''), s)
      | Some entity \<Rightarrow> (Inr entity, s))"

text \<open>
  \<open>getAll\<close> (lines 245-247), read as the list of the references tracked for the class:
  the array stored under its name, and no reference when there is none.
\<close>

definition getAll :: "entityClass \<Rightarrow> state \<Rightarrow> addr list" where
  "getAll C s = bucket s (c_name C)"

text \<open>\<open>ObjectManager.createProxy\<close> (lines 290-294) and \<open>getReference\<close> (lines 272-281).\<close>

definition createProxy :: "entityClass \<Rightarrow> jsval \<Rightarrow> state \<Rightarrow> (error + addr) \<times> state" where
  "createProxy C i s =
     (case ProxyFactory_createProxy C i s of
        (proxy, s1) \<Rightarrow>
          (case addToObjectMap C proxy s1 of
             (Inl x, s2) \<Rightarrow> (Inl x, s2)
           | (Inr u, s2) \<Rightarrow> (Inr proxy, s2)))"

definition getReference :: "entityClass \<Rightarrow> jsval \<Rightarrow> state \<Rightarrow> (error + addr) \<times> state" where
  "getReference C i s =
     (case getFromObjectMap C i s of
        None \<Rightarrow> createProxy C i s
      | Some reference \<Rightarrow> (Inr reference, s))"

text \<open>
  \<open>toArray\<close> (lines 254-262). \<open>x.$schema\<close> is found on the prototype of an entity and,
  through the prototype chain, on that of a proxy.
\<close>

definition schema_of :: "state \<Rightarrow> addr \<Rightarrow> (string \<times> property) list" where
  "schema_of s a =
     (case heap s a of
        Some (Entity e) \<Rightarrow> c_schema (e_proto e)
      | Some (Proxy p) \<Rightarrow> c_schema (p_class p)
      | None \<Rightarrow> [])"

fun toArray_loop ::
  "state \<Rightarrow> addr \<Rightarrow> (string \<times> property) list \<Rightarrow> fields \<Rightarrow> error + fields" where
  "toArray_loop s a [] data = Inr data"
| "toArray_loop s a ((i, p) # ps) data =
     (if persistable p then
        (case get_prop s a i of
           Inl x \<Rightarrow> Inl x
         | Inr v \<Rightarrow>
             (case reverseTransform p of
                None \<Rightarrow> Inl (TypeError ''reverseTransform is not a function'')
              | Some r \<Rightarrow>
                  (case r v of
                     Inl x \<Rightarrow> Inl x
                   | Inr w \<Rightarrow> toArray_loop s a ps (data(i \<mapsto> w)))))
      else toArray_loop s a ps data)"

definition toArray :: "state \<Rightarrow> addr \<Rightarrow> error + fields" where
  "toArray s a = toArray_loop s a (schema_of s a) Map.empty"

section \<open>Observations on a state\<close>

definition is_proxy :: "state \<Rightarrow> addr \<Rightarrow> bool" where
  "is_proxy s a = (case heap s a of Some (Proxy p) \<Rightarrow> True | _ \<Rightarrow> False)"

text \<open>The delegate of a proxy: its \<open>object\<close> member.\<close>

definition delegate :: "state \<Rightarrow> addr \<Rightarrow> addr option" where
  "delegate s a = (case heap s a of Some (Proxy p) \<Rightarrow> p_object p | _ \<Rightarrow> None)"

section \<open>States built by the manager\<close>

text \<open>
  An object tracked for \<open>C\<close> is an allocated object that the manager built for \<open>C\<close>:
  an entity whose prototype is that of \<open>C\<close> and which carries the accessors of
  \<open>C\<close>'s schema, or a proxy of the proxy class of \<open>C\<close>, which forwards the names
  of \<open>C\<close>'s schema other than \<open>id\<close>.
\<close>

definition built_for :: "entityClass \<Rightarrow> state \<Rightarrow> addr \<Rightarrow> bool" where
  "built_for C s a =
     (a < fresh s \<and>
      (case heap s a of
         Some (Entity e) \<Rightarrow>
           e_proto e = C \<and> (\<forall>(n, p) \<in> set (c_schema C). e_accessors e n = Some p)
       | Some (Proxy p) \<Rightarrow>
           p_class p = C \<and> p_forwards p = filter (\<lambda>n. n \<noteq> ''id'') (map fst (c_schema C))
       | None \<Rightarrow> False))"

text \<open>
  The part of a state that belongs to \<open>C\<close> is well tracked when the proxy class cached
  under the name of \<open>C\<close>, if any, was built for \<open>C\<close>, and every object in the array
  of that name was built for \<open>C\<close>.
\<close>

definition well_tracked :: "entityClass \<Rightarrow> state \<Rightarrow> bool" where
  "well_tracked C s =
     ((case proxyClasses s (c_name C @ ''Proxy'') of None \<Rightarrow> True | Some E \<Rightarrow> E = C) \<and>
      (\<forall>a \<in> set (getAll C s). built_for C s a))"

text \<open>An entity that holds the accessors of \<open>C\<close> and the transformed values of the data \<open>d\<close>.\<close>

definition loaded :: "entityClass \<Rightarrow> fields \<Rightarrow> entity \<Rightarrow> bool" where
  "loaded C d e =
     (e_proto e = C \<and>
      (\<forall>(n, p) \<in> set (c_schema C).
         e_accessors e n = Some p \<and>
         (\<exists>t v. transform p = Some t \<and> t (lookup d n) = Inr v \<and> e_values e n = Some v)))"

text \<open>
  In every state the manager reaches, the references in the identity map are references
  to allocated objects, and no reference is in the arrays of two names.
\<close>

definition map_inv :: "state \<Rightarrow> bool" where
  "map_inv s =
     ((\<forall>n. \<forall>a \<in> set (bucket s n). a < fresh s) \<and>
      (\<forall>n n'. n \<noteq> n' \<longrightarrow> set (bucket s n) \<inter> set (bucket s n') = {}))"

text \<open>
  What a call for the class \<open>C\<close> may change between two states: new objects, the
  array and the proxy class kept under the name of \<open>C\<close> (the array by one new
  reference at most), and the objects in that array. Everything else is left alone.
\<close>

definition touches_only :: "entityClass \<Rightarrow> state \<Rightarrow> state \<Rightarrow> bool" where
  "touches_only C s s' =
     (fresh s \<le> fresh s' \<and> toNumber s' = toNumber s \<and>
      (\<forall>n. n \<noteq> c_name C \<longrightarrow> objectMap s' n = objectMap s n) \<and>
      (bucket s' (c_name C) = bucket s (c_name C) \<or>
       bucket s' (c_name C) = bucket s (c_name C) @ [fresh s] \<and> fresh s < fresh s') \<and>
      (\<forall>a < fresh s. a \<notin> set (bucket s (c_name C)) \<longrightarrow> heap s' a = heap s a) \<and>
      (\<forall>k. k \<noteq> c_name C @ ''Proxy'' \<longrightarrow> proxyClasses s' k = proxyClasses s k))"

section \<open>Sequences of calls and the objects tracked for an id\<close>

text \<open>
  A call of \<open>create\<close> or \<open>getReference\<close>; \<open>run N cs\<close> is the state of a new manager
  after the calls \<open>cs\<close>, results dropped (a call that throws leaves its effects), in
  an engine whose conversion is \<open>N\<close>.
\<close>

datatype call = Create entityClass "fields option" | GetReference entityClass jsval

fun perform :: "call \<Rightarrow> state \<Rightarrow> state" where
  "perform (Create C data) s = snd (create C data s)"
| "perform (GetReference C i) s = snd (getReference C i s)"

definition run :: "conversion \<Rightarrow> call list \<Rightarrow> state" where
  "run N cs = fold perform cs (init_state N)"

fun call_class :: "call \<Rightarrow> entityClass" where
  "call_class (Create C data) = C"
| "call_class (GetReference C i) = C"

fun call_id :: "call \<Rightarrow> jsval" where
  "call_id (Create C data) = lookup (or_empty data) ''id''"
| "call_id (GetReference C i) = i"

text \<open>
  Among the calls \<open>cs\<close>, \<open>C\<close> is the only class used with its \<open>$name\<close>: the array and
  the proxy class kept under that name are not shared with another class.
\<close>

definition name_unshared :: "entityClass \<Rightarrow> call list \<Rightarrow> bool" where
  "name_unshared C cs = (\<forall>c \<in> set cs. c_name (call_class c) = c_name C \<longrightarrow> call_class c = C)"

text \<open>The objects tracked for the type whose \<open>id\<close> reads as \<open>k\<close>.\<close>

definition tracked :: "state \<Rightarrow> entityClass \<Rightarrow> jsval \<Rightarrow> addr list" where
  "tracked s C k = filter (\<lambda>a. obj_id s a = k) (getAll C s)"

text \<open>
  The schema of the class has an \<open>id\<close> property that is readable and whose transform
  is the identity, so that the id read from an entity is the id it was built from.
\<close>

definition id_kept :: "entityClass \<Rightarrow> bool" where
  "id_kept C =
     (''id'' \<in> set (map fst (c_schema C)) \<and>
      (\<forall>(n, p) \<in> set (c_schema C). n = ''id'' \<longrightarrow> readable p \<and> transform p = Some Inr))"

text \<open>
  \<open>==\<close> is transitive on the ids of \<open>S\<close>: numbers only, or strings only, but not
  \<open>1\<close>, \<open>'1'\<close> and \<open>'01'\<close> together.
\<close>

definition transitive_on :: "conversion \<Rightarrow> jsval set \<Rightarrow> bool" where
  "transitive_on N S =
     (\<forall>a \<in> S. \<forall>b \<in> S. \<forall>c \<in> S. loose_eq N a b \<and> loose_eq N b c \<longrightarrow> loose_eq N a c)"

text \<open>
  The invariant behind the lookup: in every array of the identity map, an object whose
  id is not \<open>undefined\<close> is matched by no earlier object of the array (so the lookup of
  its id finds it or nothing), tracked references are allocated, no reference is
  tracked twice, and the id of a tracked entity is read through a readable \<open>id\<close>
  accessor.
\<close>

definition first_wins :: "conversion \<Rightarrow> jsval list \<Rightarrow> bool" where
  "first_wins N ids =
     (\<forall>j < length ids. ids ! j \<noteq> Undefined \<longrightarrow> (\<forall>i < j. \<not> loose_eq N (ids ! i) (ids ! j)))"

definition id_read :: "state \<Rightarrow> addr \<Rightarrow> bool" where
  "id_read s a =
     (case heap s a of
        Some (Entity e) \<Rightarrow>
          id_kept (e_proto e) \<and> (\<exists>p. e_accessors e ''id'' = Some p \<and> readable p)
      | _ \<Rightarrow> True)"

definition id_inv :: "jsval set \<Rightarrow> state \<Rightarrow> bool" where
  "id_inv S s =
     ((\<forall>n. \<forall>a \<in> set (bucket s n). a < fresh s \<and> id_read s a \<and> obj_id s a \<in> S) \<and>
      (\<forall>n. distinct (bucket s n)) \<and>
      (\<forall>n n'. n \<noteq> n' \<longrightarrow> set (bucket s n) \<inter> set (bucket s n') = {}) \<and>
      (\<forall>n. first_wins (toNumber s) (map (obj_id s) (bucket s n))))"

section \<open>Example classes\<close>

text \<open>
  The examples that compare a number with a string run in an engine with the conversion
  \<open>decimal\<close>, which reads a string of one to fifteen decimal digits as JavaScript does
  and answers \<open>None\<close> on every other string; the examples compare no other string with a
  number.
\<close>

definition digit_val :: "char \<Rightarrow> nat option" where
  "digit_val c =
     (let n = (of_char c :: nat) in if 48 \<le> n \<and> n \<le> 57 then Some (n - 48) else None)"

fun digits_val :: "string \<Rightarrow> nat \<Rightarrow> nat option" where
  "digits_val [] acc = Some acc"
| "digits_val (c # cs) acc =
     (case digit_val c of None \<Rightarrow> None | Some d \<Rightarrow> digits_val cs (10 * acc + d))"

definition decimal :: conversion where
  "decimal s =
     (if s = [] \<or> 15 < length s then None else map_option int (digits_val s 0))"

text \<open>
  A property with the identity as both transforms and all three flags set, and the class
  \<^verbatim>\<open>var User = function() { this.inits = (this.inits || 0) + 1; }\<close> with \<open>$name\<close>
  \<open>'User'\<close>, the schema \<open>{id, name}\<close> and no \<open>constructor\<close> member of its own.
\<close>

definition plain :: property where
  "plain = \<lparr>transform = Some Inr, reverseTransform = Some Inr, readable = True,
            writable = True, persistable = True\<rparr>"

definition count_inits :: hook where
  "count_inits f = f(''inits'' \<mapsto> Num (case f ''inits'' of Some (Num k) \<Rightarrow> k + 1 | _ \<Rightarrow> 1))"

definition User :: entityClass where
  "User = \<lparr>c_name = ''User'', c_schema = [(''id'', plain), (''name'', plain)],
           c_call = count_inits, c_constructor = None\<rparr>"

text \<open>
  An account, whose \<open>owner\<close> has the transform
  \<^verbatim>\<open>function(v) { if (v === undefined) throw Error('owner is required'); return v; }\<close>,
  and a card, whose \<open>pin\<close> is writable and persistable but not readable and whose
  \<open>memo\<close> is readable and writable but not persistable.
\<close>

definition required :: "jsval \<Rightarrow> error + jsval" where
  "required v = (if v = Undefined then Inl (Error ''owner is required'') else Inr v)"

definition Account :: entityClass where
  "Account =
     \<lparr>c_name = ''Account'',
      c_schema = [(''id'', plain), (''balance'', plain),
                  (''owner'', plain\<lparr>transform := Some required\<rparr>)],
      c_call = (\<lambda>f. f), c_constructor = None\<rparr>"

definition Card :: entityClass where
  "Card =
     \<lparr>c_name = ''Card'',
      c_schema = [(''id'', plain), (''pin'', plain\<lparr>readable := False\<rparr>),
                  (''memo'', plain\<lparr>persistable := False\<rparr>)],
      c_call = (\<lambda>f. f), c_constructor = None\<rparr>"

text \<open>
  Two classes set up with \<open>prepareEntity\<close> only, which puts \<open>$name\<close> on the prototype
  (lines 302-304): \<open>entityClass.$name\<close> is \<open>undefined\<close> for both, so both are kept
  under the key \<open>'undefined'\<close>. A member has an \<open>id\<close>, a \<open>balance\<close> and a required
  \<open>owner\<close>; a book has an \<open>id\<close> and a \<open>title\<close>.
\<close>

definition Member :: entityClass where
  "Member =
     \<lparr>c_name = ''undefined'',
      c_schema = [(''id'', plain), (''balance'', plain),
                  (''owner'', plain\<lparr>transform := Some required\<rparr>)],
      c_call = (\<lambda>f. f), c_constructor = None\<rparr>"

definition Book :: entityClass where
  "Book = \<lparr>c_name = ''undefined'', c_schema = [(''id'', plain), (''title'', plain)],
           c_call = (\<lambda>f. f), c_constructor = None\<rparr>"

text \<open>
  A class whose \<open>id\<close> is stored one higher than it is given:
  \<^verbatim>\<open>transform: function(v) { return typeof v === 'number' ? v + 1 : v; }\<close> and
  \<^verbatim>\<open>reverseTransform: function(v) { return typeof v === 'number' ? v - 1 : v; }\<close>.
\<close>

definition shift_up :: "jsval \<Rightarrow> error + jsval" where
  "shift_up v = (case v of Num n \<Rightarrow> Inr (Num (n + 1)) | _ \<Rightarrow> Inr v)"

definition shift_down :: "jsval \<Rightarrow> error + jsval" where
  "shift_down v = (case v of Num n \<Rightarrow> Inr (Num (n - 1)) | _ \<Rightarrow> Inr v)"

definition Shifted :: entityClass where
  "Shifted =
     \<lparr>c_name = ''Shifted'',
      c_schema = [(''id'', plain\<lparr>transform := Some shift_up, reverseTransform := Some shift_down\<rparr>)],
      c_call = (\<lambda>f. f), c_constructor = None\<rparr>"

text \<open>
  A class with a persistable property \<open>seal\<close> that is not readable. Its transform
  stores \<open>undefined\<close> as the empty string and a string with an \<open>'s'\<close> in front; its
  reverse transform undoes that and throws on \<open>undefined\<close>, which the transform never
  returns:
  \<^verbatim>\<open>transform: function(v) { return v === undefined ? '' : typeof v === 'string' ? 's' + v : v; }\<close>,
  \<^verbatim>\<open>reverseTransform: function(v) { if (v === undefined) throw Error('no seal');
    return v === '' ? undefined : typeof v === 'string' ? v.substring(1) : v; }\<close>.
\<close>

definition seal_in :: "jsval \<Rightarrow> error + jsval" where
  "seal_in v = (case v of Undefined \<Rightarrow> Inr (Str []) | Str t \<Rightarrow> Inr (Str (CHR ''s'' # t)) | _ \<Rightarrow> Inr v)"

definition seal_out :: "jsval \<Rightarrow> error + jsval" where
  "seal_out v =
     (case v of
        Undefined \<Rightarrow> Inl (Error ''no seal'')
      | Str t \<Rightarrow> (case t of [] \<Rightarrow> Inr Undefined | c # r \<Rightarrow> Inr (Str r))
      | _ \<Rightarrow> Inr v)"

definition Sealed :: entityClass where
  "Sealed =
     \<lparr>c_name = ''Sealed'',
      c_schema = [(''id'', plain),
                  (''seal'', plain\<lparr>transform := Some seal_in, reverseTransform := Some seal_out,
                                   readable := False\<rparr>)],
      c_call = (\<lambda>f. f), c_constructor = None\<rparr>"


section \<open>What each operation leaves alone\<close>

lemma alloc_frame [simp]:
  "heap (alloc ob s) = (heap s)(fresh s \<mapsto> ob)"
  "fresh (alloc ob s) = Suc (fresh s)"
  "objectMap (alloc ob s) = objectMap s"
  "proxyClasses (alloc ob s) = proxyClasses s"
  "toNumber (alloc ob s) = toNumber s"
  by (simp_all add: alloc_def)

lemma getProxyClass_frame [simp]:
  "fresh (snd (getProxyClass C s)) = fresh s"
  "heap (snd (getProxyClass C s)) = heap s"
  "objectMap (snd (getProxyClass C s)) = objectMap s"
  "toNumber (snd (getProxyClass C s)) = toNumber s"
  by (simp_all add: getProxyClass_def Let_def split: option.splits)

lemma getProxyClass_other:
  "k \<noteq> c_name C @ ''Proxy'' \<Longrightarrow> proxyClasses (snd (getProxyClass C s)) k = proxyClasses s k"
  by (simp add: getProxyClass_def Let_def split: option.splits)

lemma bucket_getProxyClass [simp]: "bucket (snd (getProxyClass C s)) n = bucket s n"
  by (simp add: bucket_def)

lemma bucket_alloc [simp]: "bucket (alloc ob s) n = bucket s n"
  by (simp add: bucket_def)

lemma addToObjectMap_frame [simp]:
  "heap (snd (addToObjectMap C a s)) = heap s"
  "fresh (snd (addToObjectMap C a s)) = fresh s"
  "proxyClasses (snd (addToObjectMap C a s)) = proxyClasses s"
  "toNumber (snd (addToObjectMap C a s)) = toNumber s"
  by (simp_all add: addToObjectMap_def Let_def)

lemma addToObjectMap_throws:
  "objectMap s (c_name C) = None \<Longrightarrow> inherited_key (c_name C) \<Longrightarrow>
     addToObjectMap C a s = (Inl (TypeError ''objectMap[name].indexOf is not a function''), s)"
  by (simp add: addToObjectMap_def)

lemma addToObjectMap_stores:
  "objectMap s (c_name C) \<noteq> None \<or> \<not> inherited_key (c_name C) \<Longrightarrow> a \<notin> set (bucket s (c_name C)) \<Longrightarrow>
     addToObjectMap C a s =
       (Inr (), s\<lparr>objectMap := (objectMap s)(c_name C \<mapsto> bucket s (c_name C) @ [a])\<rparr>)"
  by (auto simp add: addToObjectMap_def Let_def)

lemma addToObjectMap_cases:
  assumes "a \<notin> set (bucket s (c_name C))"
  obtains (Throws) x where "addToObjectMap C a s = (Inl x, s)"
        "objectMap s (c_name C) = None" "inherited_key (c_name C)"
    | (Stores) "addToObjectMap C a s =
           (Inr (), s\<lparr>objectMap := (objectMap s)(c_name C \<mapsto> bucket s (c_name C) @ [a])\<rparr>)"
        "objectMap s (c_name C) \<noteq> None \<or> \<not> inherited_key (c_name C)"
proof (cases "objectMap s (c_name C) = None \<and> inherited_key (c_name C)")
  case True
  then have "addToObjectMap C a s = (Inl (TypeError ''objectMap[name].indexOf is not a function''), s)"
    by (simp add: addToObjectMap_throws)
  with True Throws show ?thesis by blast
next
  case False
  then have ok: "objectMap s (c_name C) \<noteq> None \<or> \<not> inherited_key (c_name C)" by auto
  from addToObjectMap_stores [OF ok assms] ok Stores show ?thesis by blast
qed

lemma getFromObjectMap_Undefined [simp]: "getFromObjectMap C Undefined s = None"
  by (simp add: getFromObjectMap_def)

lemma createProxy_eq:
  "createProxy C i s =
     (case addToObjectMap C (fresh s)
             (alloc (Proxy (new_Proxy (fst (getProxyClass C s)) i)) (snd (getProxyClass C s))) of
        (Inl x, s2) \<Rightarrow> (Inl x, s2)
      | (Inr u, s2) \<Rightarrow> (Inr (fresh s), s2))"
proof -
  obtain E s1 where g: "getProxyClass C s = (E, s1)" by (cases "getProxyClass C s")
  then have "fresh s1 = fresh s" using getProxyClass_frame(1) [of C s] by simp
  with g show ?thesis by (simp add: createProxy_def ProxyFactory_createProxy_def)
qed

lemma createProxy_state:
  "snd (createProxy C i s) =
     snd (addToObjectMap C (fresh s)
            (alloc (Proxy (new_Proxy (fst (getProxyClass C s)) i)) (snd (getProxyClass C s))))"
  by (simp add: createProxy_eq split: prod.splits sum.splits)

lemma bucket_update [simp]:
  "bucket (s\<lparr>heap := h\<rparr>) n = bucket s n"
  "bucket (s\<lparr>fresh := f\<rparr>) n = bucket s n"
  "bucket (s\<lparr>proxyClasses := c\<rparr>) n = bucket s n"
  by (simp_all add: bucket_def)

lemma getAll_update [simp]:
  "getAll C (s\<lparr>heap := h\<rparr>) = getAll C s"
  "getAll C (s\<lparr>fresh := f\<rparr>) = getAll C s"
  "getAll C (s\<lparr>proxyClasses := c\<rparr>) = getAll C s"
  by (simp_all add: getAll_def)

lemma getAll_objectMap [simp]:
  "getAll C (s\<lparr>objectMap := m\<rparr>) = (case m (c_name C) of None \<Rightarrow> [] | Some b \<Rightarrow> b)"
  by (simp add: getAll_def bucket_def)


lemma obj_id_alloc: "a \<noteq> fresh s \<Longrightarrow> obj_id (alloc ob s) a = obj_id s a"
  by (simp add: obj_id_def)

lemma getFromObjectMap_cong:
  assumes "objectMap s' (c_name C) = objectMap s (c_name C)"
      and "toNumber s' = toNumber s"
      and "\<forall>a \<in> set (getAll C s). obj_id s' a = obj_id s a"
  shows "getFromObjectMap C k s' = getFromObjectMap C k s"
proof -
  have "find (\<lambda>a. loose_eq (toNumber s) (obj_id s' a) k) b
          = find (\<lambda>a. loose_eq (toNumber s) (obj_id s a) k) b"
    if "objectMap s (c_name C) = Some b" for b
    using assms(3) that by (intro find_cong) (auto simp add: getAll_def bucket_def)
  with assms(1,2) show ?thesis
    by (simp add: getFromObjectMap_def split: option.splits)
qed

lemma getFromObjectMap_alloc:
  "\<forall>a \<in> set (getAll C s). a < fresh s \<Longrightarrow>
     getFromObjectMap C k (alloc ob s) = getFromObjectMap C k s"
  by (rule getFromObjectMap_cong) (auto simp add: obj_id_alloc)

lemma getFromObjectMap_Some:
  "getFromObjectMap C k s = Some x \<Longrightarrow>
     x \<in> set (getAll C s) \<and> loose_eq (toNumber s) (obj_id s x) k \<and> k \<noteq> Undefined"
  by (auto simp add: getFromObjectMap_def getAll_def bucket_def find_Some_iff
      split: if_splits option.splits)

lemma getFromObjectMap_None:
  "getFromObjectMap C k s = None \<Longrightarrow> k \<noteq> Undefined \<Longrightarrow> a \<in> set (getAll C s) \<Longrightarrow>
     \<not> loose_eq (toNumber s) (obj_id s a) k"
  by (auto simp add: getFromObjectMap_def getAll_def bucket_def find_None_iff
      split: if_splits option.splits)

lemma find_snoc:
  "find P (xs @ [y]) = (case find P xs of None \<Rightarrow> (if P y then Some y else None) | Some x \<Rightarrow> Some x)"
  by (induction xs) simp_all

lemma run_hook_entity:
  "heap s a = Some (Entity e) \<Longrightarrow>
     run_hook h a s = s\<lparr>heap := (heap s)(a \<mapsto> Entity (e\<lparr>e_fields := h (e_fields e)\<rparr>))\<rparr>"
  by (simp add: run_hook_def)

lemma run_hook_proxy:
  "heap s a = Some (Proxy p) \<Longrightarrow>
     run_hook h a s = s\<lparr>heap := (heap s)(a \<mapsto> Proxy (p\<lparr>p_fields := h (p_fields p)\<rparr>))\<rparr>"
  by (simp add: run_hook_def)

lemma set_object_proxy:
  "heap s x = Some (Proxy p) \<Longrightarrow>
     set_object x b s = s\<lparr>heap := (heap s)(x \<mapsto> Proxy (p\<lparr>p_object := Some b\<rparr>))\<rparr>"
  by (simp add: set_object_def)

lemma run_hook_frame [simp]:
  "objectMap (run_hook h x s) = objectMap s"
  "fresh (run_hook h x s) = fresh s"
  "proxyClasses (run_hook h x s) = proxyClasses s"
  "toNumber (run_hook h x s) = toNumber s"
  by (simp_all add: run_hook_def split: option.splits obj.splits)

lemma run_hook_other: "a \<noteq> x \<Longrightarrow> heap (run_hook h x s) a = heap s a"
  by (simp add: run_hook_def split: option.splits obj.splits)

lemma set_object_frame [simp]:
  "objectMap (set_object x b s) = objectMap s"
  "fresh (set_object x b s) = fresh s"
  "proxyClasses (set_object x b s) = proxyClasses s"
  "toNumber (set_object x b s) = toNumber s"
  by (simp_all add: set_object_def split: option.splits obj.splits)

lemma set_object_other: "a \<noteq> x \<Longrightarrow> heap (set_object x b s) a = heap s a"
  by (simp add: set_object_def split: option.splits obj.splits)

lemma update_frame [simp]:
  "objectMap (snd (update x d s)) = objectMap s"
  "fresh (snd (update x d s)) = fresh s"
  "proxyClasses (snd (update x d s)) = proxyClasses s"
  "toNumber (snd (update x d s)) = toNumber s"
  by (simp_all add: update_def split: option.splits obj.splits prod.splits list.splits)

lemma update_other: "a \<noteq> x \<Longrightarrow> heap (snd (update x d s)) a = heap s a"
  by (simp add: update_def split: option.splits obj.splits prod.splits list.splits)

section \<open>The property loops\<close>

lemma loadPropertyValue_Inr:
  "loadPropertyValue e n p d = (Inr u, e1) \<longleftrightarrow>
     (\<exists>t v. transform p = Some t \<and> t (lookup d n) = Inr v \<and>
        e1 = e\<lparr>e_raw := (e_raw e)(n \<mapsto> lookup d n), e_values := (e_values e)(n \<mapsto> v)\<rparr>)"
  by (auto simp add: loadPropertyValue_def Let_def split: option.splits sum.splits)

lemma defineProperty_Inr:
  "defineProperty e n p d = (Inr u, e1) \<longleftrightarrow>
     (\<exists>t v. transform p = Some t \<and> t (lookup d n) = Inr v \<and>
        e1 = e\<lparr>e_raw := (e_raw e)(n \<mapsto> lookup d n), e_values := (e_values e)(n \<mapsto> v),
               e_accessors := (e_accessors e)(n \<mapsto> p)\<rparr>)"
  by (auto simp add: defineProperty_def loadPropertyValue_def Let_def split: option.splits sum.splits)

lemma defineProperties_transforms:
  "defineProperties e ps d = (Inr u, e1) \<Longrightarrow> (n, p) \<in> set ps \<Longrightarrow>
     \<exists>t v. transform p = Some t \<and> t (lookup d n) = Inr v"
proof (induction ps arbitrary: e)
  case Nil
  then show ?case by simp
next
  case (Cons np ps)
  obtain m q where np: "np = (m, q)" by (cases np)
  from Cons.prems(1) np obtain e' where
    step: "defineProperty e m q d = (Inr (), e')" and rest: "defineProperties e' ps d = (Inr u, e1)"
    by (auto split: prod.splits sum.splits)
  show ?case
  proof (cases "(n, p) = (m, q)")
    case True
    with step show ?thesis by (auto simp add: defineProperty_Inr)
  next
    case False
    with Cons.prems(2) np have "(n, p) \<in> set ps" by auto
    with Cons.IH rest show ?thesis by blast
  qed
qed

lemma defineProperties_succeeds:
  "\<forall>(n, p) \<in> set ps. \<exists>t v. transform p = Some t \<and> t (lookup d n) = Inr v \<Longrightarrow>
     \<exists>e1. defineProperties e ps d = (Inr (), e1)"
proof (induction ps arbitrary: e)
  case Nil
  then show ?case by simp
next
  case (Cons np ps)
  obtain m q where np: "np = (m, q)" by (cases np)
  with Cons.prems obtain t v where "transform q = Some t" "t (lookup d m) = Inr v" by auto
  then obtain e' where "defineProperty e m q d = (Inr (), e')"
    by (auto simp add: defineProperty_Inr)
  moreover from Cons.prems have "\<forall>(n, p) \<in> set ps. \<exists>t v. transform p = Some t \<and> t (lookup d n) = Inr v"
    by auto
  from Cons.IH [OF this, of e'] obtain e1 where "defineProperties e' ps d = (Inr (), e1)" by blast
  ultimately show ?case using np by auto
qed

lemma defineProperties_frame:
  "defineProperties e ps d = (r, e1) \<Longrightarrow>
     e_proto e1 = e_proto e \<and> e_dirty e1 = e_dirty e \<and> e_fields e1 = e_fields e \<and>
     (\<forall>n. n \<notin> fst ` set ps \<longrightarrow>
        e_accessors e1 n = e_accessors e n \<and> e_values e1 n = e_values e n \<and> e_raw e1 n = e_raw e n)"
proof (induction ps arbitrary: e)
  case Nil
  then show ?case by simp
next
  case (Cons np ps)
  obtain m q where np: "np = (m, q)" by (cases np)
  show ?case
  proof (cases "defineProperty e m q d")
    case (Pair r' e')
    have one: "e_proto e' = e_proto e \<and> e_dirty e' = e_dirty e \<and> e_fields e' = e_fields e \<and>
        (\<forall>n. n \<noteq> m \<longrightarrow> e_accessors e' n = e_accessors e n \<and> e_values e' n = e_values e n \<and>
           e_raw e' n = e_raw e n)"
      using Pair
      by (auto simp add: defineProperty_def loadPropertyValue_def Let_def
          split: option.splits sum.splits if_splits)
    show ?thesis
    proof (cases r')
      case (Inl x)
      with Pair Cons.prems np one show ?thesis by auto
    next
      case (Inr x)
      with Pair Cons.prems np have "defineProperties e' ps d = (r, e1)" by simp
      from Cons.IH [OF this] one np show ?thesis by auto
    qed
  qed
qed

lemma defineProperties_built:
  "defineProperties e ps d = (Inr u, e1) \<Longrightarrow> distinct (map fst ps) \<Longrightarrow> (n, p) \<in> set ps \<Longrightarrow>
     e_accessors e1 n = Some p \<and> e_raw e1 n = Some (lookup d n) \<and>
     (\<exists>t v. transform p = Some t \<and> t (lookup d n) = Inr v \<and> e_values e1 n = Some v)"
proof (induction ps arbitrary: e)
  case Nil
  then show ?case by simp
next
  case (Cons np ps)
  obtain m q where np: "np = (m, q)" by (cases np)
  from Cons.prems(1) np obtain e' where
    step: "defineProperty e m q d = (Inr (), e')" and rest: "defineProperties e' ps d = (Inr u, e1)"
    by (auto split: prod.splits sum.splits)
  show ?case
  proof (cases "(n, p) = (m, q)")
    case True
    with Cons.prems(2) np have "n \<notin> fst ` set ps" by auto
    with defineProperties_frame [OF rest] have
      "e_accessors e1 n = e_accessors e' n" "e_values e1 n = e_values e' n" "e_raw e1 n = e_raw e' n"
      by auto
    with step True show ?thesis by (auto simp add: defineProperty_Inr)
  next
    case False
    with Cons.prems np have "(n, p) \<in> set ps" "distinct (map fst ps)" by auto
    with Cons.IH rest show ?thesis by blast
  qed
qed

lemma loadProperties_frame:
  "loadProperties e ps d = (r, e1) \<Longrightarrow>
     e_proto e1 = e_proto e \<and> e_dirty e1 = e_dirty e \<and> e_fields e1 = e_fields e \<and>
     e_accessors e1 = e_accessors e \<and>
     (\<forall>n. n \<notin> fst ` set ps \<longrightarrow> e_values e1 n = e_values e n \<and> e_raw e1 n = e_raw e n)"
proof (induction ps arbitrary: e)
  case Nil
  then show ?case by simp
next
  case (Cons np ps)
  obtain m q where np: "np = (m, q)" by (cases np)
  show ?case
  proof (cases "loadPropertyValue e m q d")
    case (Pair r' e')
    have one: "e_proto e' = e_proto e \<and> e_dirty e' = e_dirty e \<and> e_fields e' = e_fields e \<and>
        e_accessors e' = e_accessors e \<and>
        (\<forall>n. n \<noteq> m \<longrightarrow> e_values e' n = e_values e n \<and> e_raw e' n = e_raw e n)"
      using Pair
      by (auto simp add: loadPropertyValue_def Let_def split: option.splits sum.splits)
    show ?thesis
    proof (cases r')
      case (Inl x)
      with Pair Cons.prems np one show ?thesis by auto
    next
      case (Inr x)
      with Pair Cons.prems np have "loadProperties e' ps d = (r, e1)" by simp
      from Cons.IH [OF this] one np show ?thesis by auto
    qed
  qed
qed

lemma loadProperties_succeeds:
  "\<forall>(n, p) \<in> set ps. \<exists>t v. transform p = Some t \<and> t (lookup d n) = Inr v \<Longrightarrow>
     \<exists>e1. loadProperties e ps d = (Inr (), e1)"
proof (induction ps arbitrary: e)
  case Nil
  then show ?case by simp
next
  case (Cons np ps)
  obtain m q where np: "np = (m, q)" by (cases np)
  with Cons.prems obtain t v where "transform q = Some t" "t (lookup d m) = Inr v" by auto
  then obtain e' where "loadPropertyValue e m q d = (Inr (), e')"
    by (auto simp add: loadPropertyValue_Inr)
  moreover from Cons.prems have "\<forall>(n, p) \<in> set ps. \<exists>t v. transform p = Some t \<and> t (lookup d n) = Inr v"
    by auto
  from Cons.IH [OF this, of e'] obtain e1 where "loadProperties e' ps d = (Inr (), e1)" by blast
  ultimately show ?case using np by auto
qed

lemma loadProperties_loaded:
  "loadProperties e ps d = (Inr u, e1) \<Longrightarrow> distinct (map fst ps) \<Longrightarrow> (n, p) \<in> set ps \<Longrightarrow>
     e_raw e1 n = Some (lookup d n) \<and>
     (\<exists>t v. transform p = Some t \<and> t (lookup d n) = Inr v \<and> e_values e1 n = Some v)"
proof (induction ps arbitrary: e)
  case Nil
  then show ?case by simp
next
  case (Cons np ps)
  obtain m q where np: "np = (m, q)" by (cases np)
  from Cons.prems(1) np obtain e' where
    step: "loadPropertyValue e m q d = (Inr (), e')" and rest: "loadProperties e' ps d = (Inr u, e1)"
    by (auto split: prod.splits sum.splits)
  show ?case
  proof (cases "(n, p) = (m, q)")
    case True
    with Cons.prems(2) np have "n \<notin> fst ` set ps" by auto
    with loadProperties_frame [OF rest] have
      "e_values e1 n = e_values e' n" "e_raw e1 n = e_raw e' n"
      by auto
    with step True show ?thesis by (auto simp add: loadPropertyValue_Inr)
  next
    case False
    with Cons.prems np have "(n, p) \<in> set ps" "distinct (map fst ps)" by auto
    with Cons.IH rest show ?thesis by blast
  qed
qed

lemma blank_built_loaded:
  assumes "defineProperties (blank C) (c_schema C) d = (Inr u, e)" and "distinct (map fst (c_schema C))"
  shows "loaded C d e"
proof -
  from defineProperties_frame [OF assms(1)] have "e_proto e = C" by (simp add: blank_def)
  moreover have "e_accessors e n = Some p \<and>
      (\<exists>t v. transform p = Some t \<and> t (lookup d n) = Inr v \<and> e_values e n = Some v)"
    if "(n, p) \<in> set (c_schema C)" for n p
    using defineProperties_built [OF assms that] by blast
  ultimately show ?thesis by (auto simp add: loaded_def)
qed

lemma loaded_fields [simp]: "loaded C d (e\<lparr>e_fields := f\<rparr>) = loaded C d e"
  by (simp add: loaded_def)

section \<open>The output loop of toArray\<close>

lemma get_prop_entity: "heap s a = Some (Entity e) \<Longrightarrow> get_prop s a n = Inr (entity_get e n)"
  by (simp add: get_prop_def)

lemma schema_key_unique:
  "distinct (map fst ps) \<Longrightarrow> (k, q) \<in> set ps \<Longrightarrow> (k, p) \<in> set ps \<Longrightarrow> q = p"
  by (rule eq_key_imp_eq_value)

lemma toArray_loop_entries:
  "heap s a = Some (Entity e) \<Longrightarrow> distinct (map fst ps) \<Longrightarrow> toArray_loop s a ps m0 = Inr m \<Longrightarrow>
     (\<forall>n p. (n, p) \<in> set ps \<longrightarrow> persistable p \<longrightarrow>
        (\<exists>r w. reverseTransform p = Some r \<and> r (entity_get e n) = Inr w \<and> m n = Some w)) \<and>
     (\<forall>n. (\<forall>p. (n, p) \<in> set ps \<longrightarrow> \<not> persistable p) \<longrightarrow> m n = m0 n)"
proof (induction ps arbitrary: m0)
  case Nil
  then show ?case by simp
next
  case (Cons np ps)
  obtain i q where np: "np = (i, q)" by (cases np)
  from Cons.prems(2) np have d: "distinct (map fst ps)" and fresh: "i \<notin> fst ` set ps" by auto
  show ?case
  proof (cases "persistable q")
    case False
    with Cons.prems(3) np have "toArray_loop s a ps m0 = Inr m" by simp
    from Cons.IH [OF Cons.prems(1) d this] np False fresh show ?thesis
      by (auto simp add: rev_image_eqI)
  next
    case True
    with Cons.prems(1,3) np obtain r w where
      r: "reverseTransform q = Some r" "r (entity_get e i) = Inr w" and
      rest: "toArray_loop s a ps (m0(i \<mapsto> w)) = Inr m"
      by (auto simp add: get_prop_entity split: option.splits sum.splits)
    from Cons.IH [OF Cons.prems(1) d rest] have
      ih1: "\<forall>n p. (n, p) \<in> set ps \<longrightarrow> persistable p \<longrightarrow>
        (\<exists>r w. reverseTransform p = Some r \<and> r (entity_get e n) = Inr w \<and> m n = Some w)" and
      ih2: "\<forall>n. (\<forall>p. (n, p) \<in> set ps \<longrightarrow> \<not> persistable p) \<longrightarrow> m n = (m0(i \<mapsto> w)) n"
      by blast+
    have "\<forall>p. (i, p) \<in> set ps \<longrightarrow> \<not> persistable p"
      using fresh by (auto simp add: rev_image_eqI)
    with ih2 have mi: "m i = Some w" by simp
    show ?thesis
    proof (intro conjI allI impI)
      fix n p assume "(n, p) \<in> set (np # ps)" "persistable p"
      then show "\<exists>r w. reverseTransform p = Some r \<and> r (entity_get e n) = Inr w \<and> m n = Some w"
        using np r mi ih1 by auto
    next
      fix n assume a: "\<forall>p. (n, p) \<in> set (np # ps) \<longrightarrow> \<not> persistable p"
      with np True have "n \<noteq> i" by auto
      moreover from a have "\<forall>p. (n, p) \<in> set ps \<longrightarrow> \<not> persistable p" by auto
      ultimately show "m n = m0 n" using ih2 by simp
    qed
  qed
qed

lemma toArray_loop_returns:
  "heap s a = Some (Entity e) \<Longrightarrow>
   \<forall>(n, p) \<in> set ps. persistable p \<longrightarrow>
      (\<exists>r w. reverseTransform p = Some r \<and> r (entity_get e n) = Inr w) \<Longrightarrow>
   \<exists>m. toArray_loop s a ps m0 = Inr m"
proof (induction ps arbitrary: m0)
  case Nil
  then show ?case by simp
next
  case (Cons np ps)
  obtain i q where np: "np = (i, q)" by (cases np)
  from Cons.prems(2) have rest: "\<forall>(n, p) \<in> set ps. persistable p \<longrightarrow>
      (\<exists>r w. reverseTransform p = Some r \<and> r (entity_get e n) = Inr w)" by auto
  show ?case
  proof (cases "persistable q")
    case False
    with Cons.IH [OF Cons.prems(1) rest, of m0] np show ?thesis by simp
  next
    case True
    with Cons.prems(2) np obtain r w where
      "reverseTransform q = Some r" "r (entity_get e i) = Inr w" by auto
    moreover obtain m where "toArray_loop s a ps (m0(i \<mapsto> w)) = Inr m"
      using Cons.IH [OF Cons.prems(1) rest] by blast
    ultimately show ?thesis
      using np True Cons.prems(1) by (simp add: get_prop_entity)
  qed
qed

lemma set_prop_entity_writable:
  assumes "heap s a = Some (Entity e)" "e_accessors e n = Some p" "writable p"
    "transform p = Some t" "t v = Inr w"
  shows "set_prop s a n v =
     (Inr (), s\<lparr>heap := (heap s)(a \<mapsto> Entity (e\<lparr>e_dirty := True, e_values := (e_values e)(n \<mapsto> w)\<rparr>))\<rparr>)"
  using assms by (simp add: set_prop_def entity_set_def)

text \<open>The same for any reference, an entity or a proxy, through what reading it gives.\<close>

lemma toArray_loop_reads:
  "distinct (map fst ps) \<Longrightarrow> toArray_loop s a ps m0 = Inr m \<Longrightarrow>
     (\<forall>n p. (n, p) \<in> set ps \<longrightarrow> persistable p \<longrightarrow>
        (\<exists>r v w. get_prop s a n = Inr v \<and> reverseTransform p = Some r \<and> r v = Inr w \<and>
                 m n = Some w)) \<and>
     (\<forall>n. (\<forall>p. (n, p) \<in> set ps \<longrightarrow> \<not> persistable p) \<longrightarrow> m n = m0 n)"
proof (induction ps arbitrary: m0)
  case Nil
  then show ?case by simp
next
  case (Cons np ps)
  obtain i q where np: "np = (i, q)" by (cases np)
  from Cons.prems(1) np have d: "distinct (map fst ps)" and fresh: "i \<notin> fst ` set ps" by auto
  show ?case
  proof (cases "persistable q")
    case False
    with Cons.prems(2) np have "toArray_loop s a ps m0 = Inr m" by simp
    from Cons.IH [OF d this] np False fresh show ?thesis
      by (auto simp add: rev_image_eqI)
  next
    case True
    with Cons.prems(2) np obtain r v w where
      r: "get_prop s a i = Inr v" "reverseTransform q = Some r" "r v = Inr w" and
      rest: "toArray_loop s a ps (m0(i \<mapsto> w)) = Inr m"
      by (auto split: option.splits sum.splits)
    from Cons.IH [OF d rest] have
      ih1: "\<forall>n p. (n, p) \<in> set ps \<longrightarrow> persistable p \<longrightarrow>
        (\<exists>r v w. get_prop s a n = Inr v \<and> reverseTransform p = Some r \<and> r v = Inr w \<and>
                 m n = Some w)" and
      ih2: "\<forall>n. (\<forall>p. (n, p) \<in> set ps \<longrightarrow> \<not> persistable p) \<longrightarrow> m n = (m0(i \<mapsto> w)) n"
      by blast+
    have "\<forall>p. (i, p) \<in> set ps \<longrightarrow> \<not> persistable p"
      using fresh by (auto simp add: rev_image_eqI)
    with ih2 have mi: "m i = Some w" by simp
    show ?thesis
    proof (intro conjI allI impI)
      fix n p assume "(n, p) \<in> set (np # ps)" "persistable p"
      then show "\<exists>r v w. get_prop s a n = Inr v \<and> reverseTransform p = Some r \<and> r v = Inr w \<and>
                   m n = Some w"
        using np r mi ih1 by auto
    next
      fix n assume a: "\<forall>p. (n, p) \<in> set (np # ps) \<longrightarrow> \<not> persistable p"
      with np True have "n \<noteq> i" by auto
      moreover from a have "\<forall>p. (n, p) \<in> set ps \<longrightarrow> \<not> persistable p" by auto
      ultimately show "m n = m0 n" using ih2 by simp
    qed
  qed
qed

lemma toArray_loop_reads_returns:
  "\<forall>(n, p) \<in> set ps. persistable p \<longrightarrow>
      (\<exists>r v w. get_prop s a n = Inr v \<and> reverseTransform p = Some r \<and> r v = Inr w) \<Longrightarrow>
   \<exists>m. toArray_loop s a ps m0 = Inr m"
proof (induction ps arbitrary: m0)
  case Nil
  then show ?case by simp
next
  case (Cons np ps)
  obtain i q where np: "np = (i, q)" by (cases np)
  from Cons.prems have rest: "\<forall>(n, p) \<in> set ps. persistable p \<longrightarrow>
      (\<exists>r v w. get_prop s a n = Inr v \<and> reverseTransform p = Some r \<and> r v = Inr w)" by auto
  show ?case
  proof (cases "persistable q")
    case False
    with Cons.IH [OF rest, of m0] np show ?thesis by simp
  next
    case True
    with Cons.prems np obtain r v w where
      "get_prop s a i = Inr v" "reverseTransform q = Some r" "r v = Inr w" by auto
    moreover obtain m where "toArray_loop s a ps (m0(i \<mapsto> w)) = Inr m"
      using Cons.IH [OF rest] by blast
    ultimately show ?thesis
      using np True by simp
  qed
qed

section \<open>The branches of create and getReference\<close>

lemma create_unfold:
  "create C data s =
     (case defineProperties (blank C) (c_schema C) (or_empty data) of
        (Inl x, e) \<Rightarrow> (Inl x, alloc (Entity e) s)
      | (Inr u, e) \<Rightarrow>
          (case getFromObjectMap C (lookup (or_empty data) ''id'') (alloc (Entity e) s) of
             Some existing \<Rightarrow>
               (if \<not> instanceof (snd (getProxyClass C (alloc (Entity e) s))) existing
                       (fst (getProxyClass C (alloc (Entity e) s)))
                then (case update existing (or_empty data) (snd (getProxyClass C (alloc (Entity e) s))) of
                        (Inl x, s3) \<Rightarrow> (Inl x, s3)
                      | (Inr u, s3) \<Rightarrow> (Inr existing, s3))
                else (Inr existing,
                      run_hook (constructor_call C) existing
                        (set_object existing (fresh s) (snd (getProxyClass C (alloc (Entity e) s))))))
           | None \<Rightarrow>
               (case addToObjectMap C (fresh s)
                       (run_hook (constructor_call C) (fresh s) (alloc (Entity e) s)) of
                  (Inl x, s2) \<Rightarrow> (Inl x, s2)
                | (Inr u, s2) \<Rightarrow> (Inr (fresh s), s2))))"
  by (simp add: create_def Let_def case_prod_beta split: sum.splits option.splits)

lemma snd_update_result:
  "snd (case p of (Inl x, s3) \<Rightarrow> (Inl x, s3) | (Inr u, s3) \<Rightarrow> (Inr y, s3)) = snd p"
  by (auto split: prod.splits sum.splits)

lemma create_state_update:
  assumes "defineProperties (blank C) (c_schema C) (or_empty data) = (Inr u, e)"
      and "getFromObjectMap C (lookup (or_empty data) ''id'') (alloc (Entity e) s) = Some x"
      and "\<not> instanceof (snd (getProxyClass C (alloc (Entity e) s))) x
                 (fst (getProxyClass C (alloc (Entity e) s)))"
  shows "snd (create C data s) =
           snd (update x (or_empty data) (snd (getProxyClass C (alloc (Entity e) s))))"
  using assms by (simp add: create_unfold snd_update_result)

lemma create_state_resolve:
  assumes "defineProperties (blank C) (c_schema C) (or_empty data) = (Inr u, e)"
      and "getFromObjectMap C (lookup (or_empty data) ''id'') (alloc (Entity e) s) = Some x"
      and "instanceof (snd (getProxyClass C (alloc (Entity e) s))) x
                 (fst (getProxyClass C (alloc (Entity e) s)))"
  shows "snd (create C data s) =
           run_hook (constructor_call C) x
             (set_object x (fresh s) (snd (getProxyClass C (alloc (Entity e) s))))"
  using assms by (simp add: create_unfold)

lemma create_state_fresh:
  assumes "defineProperties (blank C) (c_schema C) (or_empty data) = (Inr u, e)"
      and "getFromObjectMap C (lookup (or_empty data) ''id'') (alloc (Entity e) s) = None"
  shows "snd (create C data s) =
           snd (addToObjectMap C (fresh s)
                  (run_hook (constructor_call C) (fresh s) (alloc (Entity e) s)))"
  using assms by (simp add: create_unfold snd_update_result)

lemma create_state_fail:
  assumes "defineProperties (blank C) (c_schema C) (or_empty data) = (Inl y, e)"
  shows "snd (create C data s) = alloc (Entity e) s"
  using assms by (simp add: create_unfold)

text \<open>A call for a class changes only what is kept under the name of the class.\<close>

lemma touches_only_alloc: "touches_only C s (alloc ob s)"
  by (simp add: touches_only_def)

lemma create_touches:
  assumes below: "\<forall>a \<in> set (bucket s (c_name C)). a < fresh s"
  shows "touches_only C s (snd (create C data s))"
proof (cases "defineProperties (blank C) (c_schema C) (or_empty data)")
  case (Pair r e)
  let ?d = "or_empty data"
  let ?k = "lookup ?d ''id''"
  let ?s1 = "alloc (Entity e) s"
  let ?s2 = "snd (getProxyClass C ?s1)"
  let ?P = "fst (getProxyClass C ?s1)"
  let ?s' = "snd (create C data s)"
  from below have nin: "fresh s \<notin> set (bucket s (c_name C))" by auto
  show ?thesis
  proof (cases r)
    case (Inl y)
    with Pair have "?s' = ?s1" by (simp add: create_state_fail)
    then show ?thesis by (simp add: touches_only_alloc)
  next
    case (Inr u)
    with Pair have built: "defineProperties (blank C) (c_schema C) ?d = (Inr u, e)" by simp
    show ?thesis
    proof (cases "getFromObjectMap C ?k ?s1")
      case None
      let ?t = "run_hook (constructor_call C) (fresh s) ?s1"
      have s': "?s' = snd (addToObjectMap C (fresh s) ?t)"
        using built None by (rule create_state_fresh)
      have nt: "fresh s \<notin> set (bucket ?t (c_name C))"
        using nin by (simp add: bucket_def)
      have h: "\<forall>a < fresh s. heap ?s' a = heap s a"
        unfolding s' by (simp add: run_hook_other)
      from nt show ?thesis
      proof (cases rule: addToObjectMap_cases)
        case (Throws x)
        then have "?s' = ?t" unfolding s' by simp
        with h show ?thesis by (simp add: touches_only_def bucket_def)
      next
        case Stores
        then have "?s' = ?t\<lparr>objectMap := (objectMap ?t)(c_name C \<mapsto> bucket ?t (c_name C) @ [fresh s])\<rparr>"
          unfolding s' by simp
        with h show ?thesis by (simp add: touches_only_def bucket_def)
      qed
    next
      case (Some x)
      from getFromObjectMap_Some [OF Some] have xin: "x \<in> set (bucket s (c_name C))"
        by (simp add: getAll_def)
      have base: "fresh ?s2 = Suc (fresh s)" "toNumber ?s2 = toNumber s" "objectMap ?s2 = objectMap s"
        "\<forall>k. k \<noteq> c_name C @ ''Proxy'' \<longrightarrow> proxyClasses ?s2 k = proxyClasses s k"
        "\<forall>a < fresh s. heap ?s2 a = heap s a"
        by (simp_all add: getProxyClass_other)
      show ?thesis
      proof (cases "instanceof ?s2 x ?P")
        case True
        have s': "?s' = run_hook (constructor_call C) x (set_object x (fresh s) ?s2)"
          using built Some True by (rule create_state_resolve)
        have "\<forall>a < fresh s. a \<noteq> x \<longrightarrow> heap ?s' a = heap s a"
          unfolding s' by (simp add: run_hook_other set_object_other)
        with xin base show ?thesis
          unfolding s' by (auto simp add: touches_only_def bucket_def)
      next
        case False
        have s': "?s' = snd (update x ?d ?s2)"
          using built Some False by (rule create_state_update)
        have "\<forall>a < fresh s. a \<noteq> x \<longrightarrow> heap ?s' a = heap s a"
          unfolding s' by (simp add: update_other)
        with xin base show ?thesis
          unfolding s' by (auto simp add: touches_only_def bucket_def)
      qed
    qed
  qed
qed

lemma getReference_touches:
  assumes below: "\<forall>a \<in> set (bucket s (c_name C)). a < fresh s"
  shows "touches_only C s (snd (getReference C i s))"
proof (cases "getFromObjectMap C i s")
  case (Some x)
  then show ?thesis by (simp add: getReference_def touches_only_def)
next
  case None
  let ?t = "alloc (Proxy (new_Proxy (fst (getProxyClass C s)) i)) (snd (getProxyClass C s))"
  let ?s' = "snd (getReference C i s)"
  from None have s': "?s' = snd (addToObjectMap C (fresh s) ?t)"
    by (simp add: getReference_def createProxy_state)
  from below have nt: "fresh s \<notin> set (bucket ?t (c_name C))" by auto
  have h: "\<forall>a < fresh s. heap ?s' a = heap s a"
    unfolding s' by simp
  have c: "\<forall>k. k \<noteq> c_name C @ ''Proxy'' \<longrightarrow> proxyClasses ?s' k = proxyClasses s k"
    unfolding s' by (simp add: getProxyClass_other)
  from nt show ?thesis
  proof (cases rule: addToObjectMap_cases)
    case (Throws x)
    then have "?s' = ?t" unfolding s' by simp
    with h c show ?thesis by (simp add: touches_only_def bucket_def)
  next
    case Stores
    then have "?s' = ?t\<lparr>objectMap := (objectMap ?t)(c_name C \<mapsto> bucket ?t (c_name C) @ [fresh s])\<rparr>"
      unfolding s' by simp
    with h c show ?thesis by (simp add: touches_only_def bucket_def)
  qed
qed

lemma perform_touches:
  "\<forall>a \<in> set (bucket s (c_name (call_class c))). a < fresh s \<Longrightarrow>
     touches_only (call_class c) s (perform c s)"
  by (cases c) (simp_all add: create_touches getReference_touches)

lemma map_inv_init: "map_inv (init_state N)"
  by (simp add: map_inv_def init_state_def bucket_def)

lemma map_inv_below: "map_inv s \<Longrightarrow> \<forall>a \<in> set (bucket s n). a < fresh s"
  by (simp add: map_inv_def)

lemma map_inv_touches:
  assumes inv: "map_inv s" and t: "touches_only C s s'"
  shows "map_inv s'"
proof -
  have other: "bucket s' n = bucket s n" if "n \<noteq> c_name C" for n
    using t that by (simp add: touches_only_def bucket_def)
  from t have here: "bucket s' (c_name C) = bucket s (c_name C) \<or>
       bucket s' (c_name C) = bucket s (c_name C) @ [fresh s] \<and> fresh s < fresh s'"
    and fr: "fresh s \<le> fresh s'"
    by (simp_all add: touches_only_def)
  have lt: "a < fresh s" if "a \<in> set (bucket s n)" for a n
    using inv that by (auto simp add: map_inv_def)
  have sub: "a \<in> set (bucket s n) \<or> (a = fresh s \<and> n = c_name C \<and> fresh s < fresh s')"
    if "a \<in> set (bucket s' n)" for a n
  proof (cases "n = c_name C")
    case False
    with that other show ?thesis by simp
  next
    case True
    with that here show ?thesis by auto
  qed
  have 1: "\<forall>n. \<forall>a \<in> set (bucket s' n). a < fresh s'"
  proof (intro allI ballI)
    fix n a assume "a \<in> set (bucket s' n)"
    from sub [OF this] lt fr show "a < fresh s'" by force
  qed
  have 2: "\<forall>n n'. n \<noteq> n' \<longrightarrow> set (bucket s' n) \<inter> set (bucket s' n') = {}"
  proof (intro allI impI)
    fix n n' :: string assume ne: "n \<noteq> n'"
    show "set (bucket s' n) \<inter> set (bucket s' n') = {}"
    proof (rule ccontr)
      assume "set (bucket s' n) \<inter> set (bucket s' n') \<noteq> {}"
      then obtain a where a: "a \<in> set (bucket s' n)" "a \<in> set (bucket s' n')" by blast
      from sub [OF a(1)] sub [OF a(2)] ne consider
        "a \<in> set (bucket s n)" "a \<in> set (bucket s n')"
        | "a = fresh s" "a \<in> set (bucket s n) \<or> a \<in> set (bucket s n')"
        by blast
      then show False
      proof cases
        case 1
        from inv ne have "set (bucket s n) \<inter> set (bucket s n') = {}"
          by (simp add: map_inv_def)
        with 1 show ?thesis by blast
      next
        case 2
        with lt show ?thesis by blast
      qed
    qed
  qed
  from 1 2 show ?thesis by (simp add: map_inv_def)
qed

lemma map_inv_perform: "map_inv s \<Longrightarrow> map_inv (perform c s)"
  using map_inv_touches perform_touches map_inv_below by blast

lemma map_inv_fold: "map_inv s \<Longrightarrow> map_inv (fold perform cs s)"
  by (induction cs arbitrary: s) (simp_all add: map_inv_perform)

lemma map_inv_run: "map_inv (run N cs)"
  unfolding run_def using map_inv_init by (rule map_inv_fold)

lemma toNumber_perform: "map_inv s \<Longrightarrow> toNumber (perform c s) = toNumber s"
  using perform_touches [OF map_inv_below] by (simp add: touches_only_def)

lemma toNumber_fold: "map_inv s \<Longrightarrow> toNumber (fold perform cs s) = toNumber s"
  by (induction cs arbitrary: s) (simp_all add: map_inv_perform toNumber_perform)

lemma toNumber_run [simp]: "toNumber (run N cs) = N"
  unfolding run_def using toNumber_fold [OF map_inv_init] by (simp add: init_state_def)

lemma well_tracked_cases:
  assumes "well_tracked C s" and "a \<in> set (getAll C s)"
  obtains (Entity) e where "a < fresh s" "heap s a = Some (Entity e)" "e_proto e = C"
      "\<forall>(n, p) \<in> set (c_schema C). e_accessors e n = Some p"
    | (Proxy) p where "a < fresh s" "heap s a = Some (Proxy p)" "p_class p = C"
        "p_forwards p = filter (\<lambda>n. n \<noteq> ''id'') (map fst (c_schema C))"
proof -
  from assms have lt: "a < fresh s" and
    c: "case heap s a of
          Some (Entity e) \<Rightarrow>
            e_proto e = C \<and> (\<forall>(n, p) \<in> set (c_schema C). e_accessors e n = Some p)
        | Some (Proxy p) \<Rightarrow>
            p_class p = C \<and> p_forwards p = filter (\<lambda>n. n \<noteq> ''id'') (map fst (c_schema C))
        | None \<Rightarrow> False"
    unfolding well_tracked_def built_for_def by blast+
  show thesis
  proof (cases "heap s a")
    case None
    with c show ?thesis by simp
  next
    case (Some ob)
    show ?thesis
    proof (cases ob)
      case (Entity e)
      with Some c lt that(1) show ?thesis by simp
    next
      case (Proxy p)
      with Some c lt that(2) show ?thesis by simp
    qed
  qed
qed

lemma well_tracked_below: "well_tracked C s \<Longrightarrow> \<forall>a \<in> set (getAll C s). a < fresh s"
  by (simp add: well_tracked_def built_for_def)

lemma well_tracked_intro:
  assumes "proxyClasses s (c_name C @ ''Proxy'') = None \<or> proxyClasses s (c_name C @ ''Proxy'') = Some C"
      and "\<And>a. a \<in> set (getAll C s) \<Longrightarrow> built_for C s a"
  shows "well_tracked C s"
  using assms by (auto simp add: well_tracked_def)

lemma well_tracked_built: "well_tracked C s \<Longrightarrow> a \<in> set (getAll C s) \<Longrightarrow> built_for C s a"
  by (simp add: well_tracked_def)

lemma well_tracked_cache:
  "well_tracked C s \<Longrightarrow>
     proxyClasses s (c_name C @ ''Proxy'') = None \<or> proxyClasses s (c_name C @ ''Proxy'') = Some C"
  by (auto simp add: well_tracked_def split: option.splits)

lemma well_tracked_init: "well_tracked C (init_state N)"
  by (simp add: well_tracked_def init_state_def getAll_def bucket_def)

lemma getProxyClass_tracked:
  "well_tracked C s \<Longrightarrow>
     getProxyClass C s = (C, s\<lparr>proxyClasses := (proxyClasses s)(c_name C @ ''Proxy'' \<mapsto> C)\<rparr>)"
  by (auto simp add: well_tracked_def getProxyClass_def map_upd_triv split: option.splits)

lemma well_tracked_alloc_cache:
  "well_tracked C s \<Longrightarrow>
     getProxyClass C (alloc ob s) =
       (C, (alloc ob s)\<lparr>proxyClasses := (proxyClasses s)(c_name C @ ''Proxy'' \<mapsto> C)\<rparr>)"
  by (auto simp add: well_tracked_def getProxyClass_def map_upd_triv split: option.splits)

text \<open>
  The ways through \<open>create\<close> in a well tracked state: a property throws; nothing is
  tracked for the id and the name cannot be registered; nothing is tracked for the id
  and the entity is registered; an entity is tracked and updated; a proxy is tracked
  and bound.
\<close>

lemma create_cases [consumes 1, case_names Fail Unregistered Fresh Update Resolve]:
  assumes wt: "well_tracked C s"
  obtains
    (Fail) x e where
      "defineProperties (blank C) (c_schema C) (or_empty data) = (Inl x, e)"
      "create C data s = (Inl x, alloc (Entity e) s)"
  | (Unregistered) x e where
      "defineProperties (blank C) (c_schema C) (or_empty data) = (Inr (), e)"
      "getFromObjectMap C (lookup (or_empty data) ''id'') s = None"
      "objectMap s (c_name C) = None" "inherited_key (c_name C)"
      "create C data s =
         (Inl x,
          s\<lparr>heap := (heap s)(fresh s \<mapsto> Entity (e\<lparr>e_fields := constructor_call C (e_fields e)\<rparr>)),
            fresh := Suc (fresh s)\<rparr>)"
  | (Fresh) e where
      "defineProperties (blank C) (c_schema C) (or_empty data) = (Inr (), e)"
      "getFromObjectMap C (lookup (or_empty data) ''id'') s = None"
      "create C data s =
         (Inr (fresh s),
          s\<lparr>heap := (heap s)(fresh s \<mapsto> Entity (e\<lparr>e_fields := constructor_call C (e_fields e)\<rparr>)),
            fresh := Suc (fresh s),
            objectMap := (objectMap s)(c_name C \<mapsto> getAll C s @ [fresh s])\<rparr>)"
  | (Update) e x e0 e1 where
      "defineProperties (blank C) (c_schema C) (or_empty data) = (Inr (), e)"
      "getFromObjectMap C (lookup (or_empty data) ''id'') s = Some x"
      "x < fresh s" "heap s x = Some (Entity e0)" "e_proto e0 = C"
      "\<forall>(n, p) \<in> set (c_schema C). e_accessors e0 n = Some p"
      "loadProperties e0 (c_schema C) (or_empty data) = (Inr (), e1)"
      "create C data s =
         (Inr x,
          s\<lparr>heap := (heap s)(fresh s \<mapsto> Entity e, x \<mapsto> Entity e1),
            fresh := Suc (fresh s),
            proxyClasses := (proxyClasses s)(c_name C @ ''Proxy'' \<mapsto> C)\<rparr>)"
  | (Resolve) e x p where
      "defineProperties (blank C) (c_schema C) (or_empty data) = (Inr (), e)"
      "getFromObjectMap C (lookup (or_empty data) ''id'') s = Some x"
      "x < fresh s" "heap s x = Some (Proxy p)" "p_class p = C"
      "p_forwards p = filter (\<lambda>n. n \<noteq> ''id'') (map fst (c_schema C))"
      "create C data s =
         (Inr x,
          s\<lparr>heap := (heap s)(fresh s \<mapsto> Entity e,
                 x \<mapsto> Proxy (p\<lparr>p_object := Some (fresh s),
                                p_fields := constructor_call C (p_fields p)\<rparr>)),
            fresh := Suc (fresh s),
            proxyClasses := (proxyClasses s)(c_name C @ ''Proxy'' \<mapsto> C)\<rparr>)"
proof (cases "defineProperties (blank C) (c_schema C) (or_empty data)")
  case (Pair r e)
  let ?d = "or_empty data"
  let ?s1 = "alloc (Entity e) s"
  let ?s2 = "?s1\<lparr>proxyClasses := (proxyClasses s)(c_name C @ ''Proxy'' \<mapsto> C)\<rparr>"
  show thesis
  proof (cases r)
    case (Inl y)
    with Pair have "create C data s = (Inl y, ?s1)" by (simp add: create_unfold)
    with Pair Inl Fail show ?thesis by simp
  next
    case (Inr u)
    with Pair have built: "defineProperties (blank C) (c_schema C) ?d = (Inr (), e)" by simp
    have look: "getFromObjectMap C (lookup ?d ''id'') ?s1 = getFromObjectMap C (lookup ?d ''id'') s"
      using well_tracked_below [OF wt] by (rule getFromObjectMap_alloc)
    have below: "fresh s \<notin> set (getAll C s)"
      using well_tracked_below [OF wt] by auto
    show ?thesis
    proof (cases "getFromObjectMap C (lookup ?d ''id'') s")
      case None
      let ?t = "?s1\<lparr>heap := (heap ?s1)(fresh s \<mapsto> Entity (e\<lparr>e_fields := constructor_call C (e_fields e)\<rparr>))\<rparr>"
      have rh: "run_hook (constructor_call C) (fresh s) ?s1 = ?t"
        by (rule run_hook_entity) simp
      have cr: "create C data s =
         (case addToObjectMap C (fresh s) ?t of
            (Inl x, s2) \<Rightarrow> (Inl x, s2) | (Inr u, s2) \<Rightarrow> (Inr (fresh s), s2))"
        using built look None by (simp add: create_unfold rh)
      have nt: "fresh s \<notin> set (bucket ?t (c_name C))"
        using below by (simp add: getAll_def)
      from nt show ?thesis
      proof (cases rule: addToObjectMap_cases)
        case (Throws x)
        from Throws(1) cr have "create C data s =
         (Inl x,
          s\<lparr>heap := (heap s)(fresh s \<mapsto> Entity (e\<lparr>e_fields := constructor_call C (e_fields e)\<rparr>)),
            fresh := Suc (fresh s)\<rparr>)"
          by (simp add: alloc_def)
        moreover from Throws(2,3) have "objectMap s (c_name C) = None" "inherited_key (c_name C)"
          by simp_all
        ultimately show ?thesis using built None Unregistered by blast
      next
        case Stores
        from Stores(1) cr have "create C data s =
         (Inr (fresh s),
          s\<lparr>heap := (heap s)(fresh s \<mapsto> Entity (e\<lparr>e_fields := constructor_call C (e_fields e)\<rparr>)),
            fresh := Suc (fresh s),
            objectMap := (objectMap s)(c_name C \<mapsto> getAll C s @ [fresh s])\<rparr>)"
          by (simp add: alloc_def getAll_def)
        with built None Fresh show ?thesis by blast
      qed
    next
      case (Some x)
      then have mem: "x \<in> set (getAll C s)" by (simp add: getFromObjectMap_Some)
      have gp: "getProxyClass C ?s1 = (C, ?s2)"
        using wt by (rule well_tracked_alloc_cache)
      from wt mem show ?thesis
      proof (cases rule: well_tracked_cases)
        case (Entity e0)
        have hp: "heap ?s2 x = Some (Entity e0)" using Entity by simp
        have tr: "\<forall>(n, p) \<in> set (c_schema (e_proto e0)). \<exists>t v. transform p = Some t \<and> t (lookup ?d n) = Inr v"
          using defineProperties_transforms [OF built] Entity(3) by auto
        from loadProperties_succeeds [OF tr, of e0] Entity(3) obtain e1 where
          lp: "loadProperties e0 (c_schema C) ?d = (Inr (), e1)" by auto
        with hp Entity(3) have up: "update x ?d ?s2 = (Inr (), ?s2\<lparr>heap := (heap ?s2)(x \<mapsto> Entity e1)\<rparr>)"
          by (simp add: update_def)
        have ni: "\<not> instanceof ?s2 x C"
          using hp by (simp add: instanceof_def)
        have "create C data s = (Inr x, ?s2\<lparr>heap := (heap ?s2)(x \<mapsto> Entity e1)\<rparr>)"
          using built look Some gp ni up by (simp add: create_unfold)
        then have "create C data s =
         (Inr x,
          s\<lparr>heap := (heap s)(fresh s \<mapsto> Entity e, x \<mapsto> Entity e1),
            fresh := Suc (fresh s),
            proxyClasses := (proxyClasses s)(c_name C @ ''Proxy'' \<mapsto> C)\<rparr>)"
          by (simp add: alloc_def)
        with built Some Entity lp Update show ?thesis by blast
      next
        case (Proxy p)
        have hp: "heap ?s2 x = Some (Proxy p)" using Proxy by simp
        then have "instanceof ?s2 x C"
          using Proxy by (simp add: instanceof_def)
        with built look Some gp have
          "create C data s = (Inr x, run_hook (constructor_call C) x (set_object x (fresh s) ?s2))"
          by (simp add: create_unfold)
        also have "set_object x (fresh s) ?s2 =
            ?s2\<lparr>heap := (heap ?s2)(x \<mapsto> Proxy (p\<lparr>p_object := Some (fresh s)\<rparr>))\<rparr>"
          using hp by (rule set_object_proxy)
        also have "run_hook (constructor_call C) x \<dots> =
            ?s2\<lparr>heap := (heap ?s2)(x \<mapsto> Proxy (p\<lparr>p_object := Some (fresh s),
                   p_fields := constructor_call C (p_fields p)\<rparr>))\<rparr>"
          by (simp add: run_hook_def)
        finally have "create C data s =
         (Inr x,
          s\<lparr>heap := (heap s)(fresh s \<mapsto> Entity e,
                 x \<mapsto> Proxy (p\<lparr>p_object := Some (fresh s),
                                p_fields := constructor_call C (p_fields p)\<rparr>)),
            fresh := Suc (fresh s),
            proxyClasses := (proxyClasses s)(c_name C @ ''Proxy'' \<mapsto> C)\<rparr>)"
          by (simp add: alloc_def)
        with built Some Proxy Resolve show ?thesis by blast
      qed
    qed
  qed
qed

lemma getReference_cases [consumes 1, case_names Hit Unregistered Miss]:
  assumes wt: "well_tracked C s"
  obtains
    (Hit) x where "getFromObjectMap C i s = Some x" "getReference C i s = (Inr x, s)"
  | (Unregistered) x where "getFromObjectMap C i s = None"
      "objectMap s (c_name C) = None" "inherited_key (c_name C)"
      "getReference C i s =
         (Inl x,
          s\<lparr>heap := (heap s)(fresh s \<mapsto> Proxy (new_Proxy C i)),
            fresh := Suc (fresh s),
            proxyClasses := (proxyClasses s)(c_name C @ ''Proxy'' \<mapsto> C)\<rparr>)"
  | (Miss) "getFromObjectMap C i s = None"
      "getReference C i s =
         (Inr (fresh s),
          s\<lparr>heap := (heap s)(fresh s \<mapsto> Proxy (new_Proxy C i)),
            fresh := Suc (fresh s),
            objectMap := (objectMap s)(c_name C \<mapsto> getAll C s @ [fresh s]),
            proxyClasses := (proxyClasses s)(c_name C @ ''Proxy'' \<mapsto> C)\<rparr>)"
proof (cases "getFromObjectMap C i s")
  case (Some x)
  then have "getReference C i s = (Inr x, s)" by (simp add: getReference_def)
  with Some Hit show ?thesis by blast
next
  case None
  let ?t = "alloc (Proxy (new_Proxy C i)) (s\<lparr>proxyClasses := (proxyClasses s)(c_name C @ ''Proxy'' \<mapsto> C)\<rparr>)"
  have below: "fresh s \<notin> set (getAll C s)"
    using well_tracked_below [OF wt] by auto
  have gr: "getReference C i s =
     (case addToObjectMap C (fresh s) ?t of
        (Inl x, s2) \<Rightarrow> (Inl x, s2) | (Inr u, s2) \<Rightarrow> (Inr (fresh s), s2))"
    using None by (simp add: getReference_def createProxy_eq getProxyClass_tracked [OF wt])
  have nt: "fresh s \<notin> set (bucket ?t (c_name C))"
    using below by (simp add: getAll_def)
  from nt show ?thesis
  proof (cases rule: addToObjectMap_cases)
    case (Throws x)
    from Throws(1) gr have "getReference C i s =
         (Inl x,
          s\<lparr>heap := (heap s)(fresh s \<mapsto> Proxy (new_Proxy C i)),
            fresh := Suc (fresh s),
            proxyClasses := (proxyClasses s)(c_name C @ ''Proxy'' \<mapsto> C)\<rparr>)"
      by (simp add: alloc_def)
    moreover from Throws(2,3) have "objectMap s (c_name C) = None" "inherited_key (c_name C)"
      by simp_all
    ultimately show ?thesis using None Unregistered by blast
  next
    case Stores
    from Stores(1) gr have "getReference C i s =
         (Inr (fresh s),
          s\<lparr>heap := (heap s)(fresh s \<mapsto> Proxy (new_Proxy C i)),
            fresh := Suc (fresh s),
            objectMap := (objectMap s)(c_name C \<mapsto> getAll C s @ [fresh s]),
            proxyClasses := (proxyClasses s)(c_name C @ ''Proxy'' \<mapsto> C)\<rparr>)"
      by (simp add: alloc_def getAll_def)
    with None Miss show ?thesis by blast
  qed
qed

lemma built_for_kept:
  "built_for C s a \<Longrightarrow> fresh s \<le> fresh s' \<Longrightarrow> heap s' a = heap s a \<Longrightarrow> built_for C s' a"
  by (simp add: built_for_def)

lemma well_tracked_getReference:
  assumes wt: "well_tracked C s"
  shows "well_tracked C (snd (getReference C i s))"
  using wt
proof (cases rule: getReference_cases [where i = i])
  case (Hit x)
  with wt show ?thesis by simp
next
  case (Unregistered x)
  let ?s' = "snd (getReference C i s)"
  have h: "heap ?s' = (heap s)(fresh s \<mapsto> Proxy (new_Proxy C i))" and f: "fresh ?s' = Suc (fresh s)"
    and g: "getAll C ?s' = getAll C s"
    and c: "proxyClasses ?s' (c_name C @ ''Proxy'') = Some C"
    unfolding Unregistered(4) by (simp_all add: getAll_def bucket_def)
  show ?thesis
  proof (rule well_tracked_intro)
    show "proxyClasses ?s' (c_name C @ ''Proxy'') = None \<or> proxyClasses ?s' (c_name C @ ''Proxy'') = Some C"
      using c by simp
  next
    fix a assume "a \<in> set (getAll C ?s')"
    with g have 2: "a \<in> set (getAll C s)" by simp
    from well_tracked_built [OF wt 2] have b: "built_for C s a" .
    then have "a \<noteq> fresh s" by (auto simp add: built_for_def)
    with b show "built_for C ?s' a" by (simp add: built_for_def h f)
  qed
next
  case Miss
  let ?s' = "snd (getReference C i s)"
  have h: "heap ?s' = (heap s)(fresh s \<mapsto> Proxy (new_Proxy C i))" and f: "fresh ?s' = Suc (fresh s)"
    and g: "getAll C ?s' = getAll C s @ [fresh s]"
    and c: "proxyClasses ?s' (c_name C @ ''Proxy'') = Some C"
    unfolding Miss(2) by simp_all
  show ?thesis
  proof (rule well_tracked_intro)
    show "proxyClasses ?s' (c_name C @ ''Proxy'') = None \<or> proxyClasses ?s' (c_name C @ ''Proxy'') = Some C"
      using c by simp
  next
    fix a assume "a \<in> set (getAll C ?s')"
    with g consider "a = fresh s" | "a \<in> set (getAll C s)" by auto
    then show "built_for C ?s' a"
    proof cases
      case 1
      then show ?thesis
        by (simp add: built_for_def h f new_Proxy_def)
    next
      case 2
      from well_tracked_built [OF wt 2] have b: "built_for C s a" .
      then have "a \<noteq> fresh s" by (auto simp add: built_for_def)
      with b show ?thesis by (simp add: built_for_def h f)
    qed
  qed
qed

lemma well_tracked_create:
  assumes d: "distinct (map fst (c_schema C))" and wt: "well_tracked C s"
  shows "well_tracked C (snd (create C data s))"
proof -
  let ?s' = "snd (create C data s)"
  note cache = well_tracked_cache [OF wt]
  from wt show ?thesis
  proof (cases rule: create_cases [where data = data])
    case (Fail x e)
    have h: "heap ?s' = (heap s)(fresh s \<mapsto> Entity e)" and f: "fresh ?s' = Suc (fresh s)"
      and g: "getAll C ?s' = getAll C s" and c: "proxyClasses ?s' = proxyClasses s"
      unfolding Fail(2) by (simp_all add: getAll_def)
    show ?thesis
    proof (rule well_tracked_intro)
      fix a assume "a \<in> set (getAll C ?s')"
      with g have "a \<in> set (getAll C s)" by simp
      from well_tracked_built [OF wt this] have b: "built_for C s a" .
      then have "a \<noteq> fresh s" by (auto simp add: built_for_def)
      with b show "built_for C ?s' a" by (simp add: built_for_def h f)
    qed (use cache c in simp)
  next
    case (Unregistered x e)
    have h: "heap ?s' = (heap s)(fresh s \<mapsto> Entity (e\<lparr>e_fields := constructor_call C (e_fields e)\<rparr>))"
      and f: "fresh ?s' = Suc (fresh s)"
      and g: "getAll C ?s' = getAll C s" and c: "proxyClasses ?s' = proxyClasses s"
      unfolding Unregistered(5) by (simp_all add: getAll_def)
    show ?thesis
    proof (rule well_tracked_intro)
      fix a assume "a \<in> set (getAll C ?s')"
      with g have "a \<in> set (getAll C s)" by simp
      from well_tracked_built [OF wt this] have b: "built_for C s a" .
      then have "a \<noteq> fresh s" by (auto simp add: built_for_def)
      with b show "built_for C ?s' a" by (simp add: built_for_def h f)
    qed (use cache c in simp)
  next
    case (Fresh e)
    from blank_built_loaded [OF Fresh(1) d] have le: "loaded C (or_empty data) e" .
    have h: "heap ?s' = (heap s)(fresh s \<mapsto> Entity (e\<lparr>e_fields := constructor_call C (e_fields e)\<rparr>))"
      and f: "fresh ?s' = Suc (fresh s)"
      and g: "getAll C ?s' = getAll C s @ [fresh s]" and c: "proxyClasses ?s' = proxyClasses s"
      unfolding Fresh(3) by simp_all
    show ?thesis
    proof (rule well_tracked_intro)
      fix a assume "a \<in> set (getAll C ?s')"
      with g consider "a = fresh s" | "a \<in> set (getAll C s)" by auto
      then show "built_for C ?s' a"
      proof cases
        case 1
        with le show ?thesis
          by (auto simp add: built_for_def h f loaded_def)
      next
        case 2
        from well_tracked_built [OF wt 2] have b: "built_for C s a" .
        then have "a \<noteq> fresh s" by (auto simp add: built_for_def)
        with b show ?thesis by (simp add: built_for_def h f)
      qed
    qed (use cache c in simp)
  next
    case (Update e x e0 e1)
    from loadProperties_frame [OF Update(7)] Update(5,6) have
      e1: "e_proto e1 = C" "\<forall>(n, p) \<in> set (c_schema C). e_accessors e1 n = Some p" by auto
    have h: "heap ?s' = (heap s)(fresh s \<mapsto> Entity e, x \<mapsto> Entity e1)"
      and f: "fresh ?s' = Suc (fresh s)"
      and g: "getAll C ?s' = getAll C s"
      and c: "proxyClasses ?s' (c_name C @ ''Proxy'') = Some C"
      unfolding Update(8) by simp_all
    show ?thesis
    proof (rule well_tracked_intro)
      fix a assume "a \<in> set (getAll C ?s')"
      with g have m: "a \<in> set (getAll C s)" by simp
      from well_tracked_built [OF wt m] have b: "built_for C s a" .
      then have ne: "a \<noteq> fresh s" by (auto simp add: built_for_def)
      show "built_for C ?s' a"
      proof (cases "a = x")
        case True
        with Update(3) e1 show ?thesis
          by (simp add: built_for_def h f)
      next
        case False
        with b ne show ?thesis by (simp add: built_for_def h f)
      qed
    qed (use c in simp)
  next
    case (Resolve e x p)
    let ?p = "p\<lparr>p_object := Some (fresh s), p_fields := constructor_call C (p_fields p)\<rparr>"
    have h: "heap ?s' = (heap s)(fresh s \<mapsto> Entity e, x \<mapsto> Proxy ?p)"
      and f: "fresh ?s' = Suc (fresh s)"
      and g: "getAll C ?s' = getAll C s"
      and c: "proxyClasses ?s' (c_name C @ ''Proxy'') = Some C"
      unfolding Resolve(7) by simp_all
    show ?thesis
    proof (rule well_tracked_intro)
      fix a assume "a \<in> set (getAll C ?s')"
      with g have m: "a \<in> set (getAll C s)" by simp
      from well_tracked_built [OF wt m] have b: "built_for C s a" .
      then have ne: "a \<noteq> fresh s" by (auto simp add: built_for_def)
      show "built_for C ?s' a"
      proof (cases "a = x")
        case True
        with Resolve(3,5,6) show ?thesis
          by (simp add: built_for_def h f)
      next
        case False
        with b ne show ?thesis by (simp add: built_for_def h f)
      qed
    qed (use c in simp)
  qed
qed

lemma create_returns_loaded_entity:
  assumes d: "distinct (map fst (c_schema C))"
      and wt: "well_tracked C s"
      and cr: "create C data s = (Inr a, s1)"
      and ent: "\<not> is_proxy s1 a"
  shows "\<exists>e1. heap s1 a = Some (Entity e1) \<and> loaded C (or_empty data) e1"
  using wt
proof (cases rule: create_cases [where data = data])
  case (Fail x e)
  with cr show ?thesis by simp
next
  case (Unregistered x e)
  with cr show ?thesis by simp
next
  case (Fresh e)
  from blank_built_loaded [OF Fresh(1) d] have "loaded C (or_empty data) e" .
  with Fresh(3) cr show ?thesis by auto
next
  case (Update e x e0 e1)
  have "loaded C (or_empty data) e1"
    using loadProperties_frame [OF Update(7)] loadProperties_loaded [OF Update(7) d] Update(5,6)
    by (auto simp add: loaded_def)
  with Update(8) cr show ?thesis by auto
next
  case (Resolve e x p)
  with cr have "is_proxy s1 a" by (auto simp add: is_proxy_def)
  with ent show ?thesis by simp
qed

text \<open>
  A call for a class of another name leaves the part of \<open>C\<close> well tracked, and so do
  the calls for \<open>C\<close> itself: a manager on which \<open>C\<close> is the only class used with its
  name keeps that part well tracked.
\<close>

lemma well_tracked_touches:
  assumes inv: "map_inv s" and wt: "well_tracked C s" and ne: "c_name D \<noteq> c_name C"
      and t: "touches_only D s s'"
  shows "well_tracked C s'"
proof (rule well_tracked_intro)
  from t ne have "proxyClasses s' (c_name C @ ''Proxy'') = proxyClasses s (c_name C @ ''Proxy'')"
    by (simp add: touches_only_def)
  with well_tracked_cache [OF wt]
  show "proxyClasses s' (c_name C @ ''Proxy'') = None \<or> proxyClasses s' (c_name C @ ''Proxy'') = Some C"
    by simp
next
  fix a assume a: "a \<in> set (getAll C s')"
  from t ne have "objectMap s' (c_name C) = objectMap s (c_name C)"
    by (simp add: touches_only_def)
  then have "getAll C s' = getAll C s" by (simp add: getAll_def bucket_def)
  with a have m: "a \<in> set (bucket s (c_name C))" by (simp add: getAll_def)
  with inv have lt: "a < fresh s" by (auto simp add: map_inv_def)
  from inv ne have "set (bucket s (c_name D)) \<inter> set (bucket s (c_name C)) = {}"
    by (simp add: map_inv_def)
  with m have "a \<notin> set (bucket s (c_name D))" by blast
  with t lt have h: "heap s' a = heap s a" and f: "fresh s \<le> fresh s'"
    by (simp_all add: touches_only_def)
  from m have "built_for C s a" using wt by (simp add: well_tracked_def getAll_def)
  then show "built_for C s' a" using f h by (rule built_for_kept)
qed

lemma well_tracked_perform:
  assumes inv: "map_inv s" and wt: "well_tracked C s" and d: "distinct (map fst (c_schema C))"
      and own: "c_name (call_class c) = c_name C \<longrightarrow> call_class c = C"
  shows "well_tracked C (perform c s)"
proof (cases "c_name (call_class c) = c_name C")
  case True
  with own have "call_class c = C" by simp
  then show ?thesis
    using wt d by (cases c) (simp_all add: well_tracked_create well_tracked_getReference)
next
  case False
  from perform_touches [OF map_inv_below [OF inv]] have "touches_only (call_class c) s (perform c s)" .
  with inv wt False show ?thesis by (rule well_tracked_touches)
qed

lemma well_tracked_fold:
  "map_inv s \<Longrightarrow> well_tracked C s \<Longrightarrow> distinct (map fst (c_schema C)) \<Longrightarrow> name_unshared C cs \<Longrightarrow>
     well_tracked C (fold perform cs s)"
proof (induction cs arbitrary: s)
  case Nil
  then show ?case by simp
next
  case (Cons c cs)
  from Cons.prems(4) have own: "c_name (call_class c) = c_name C \<longrightarrow> call_class c = C"
    and rest: "name_unshared C cs"
    by (simp_all add: name_unshared_def)
  from Cons.prems(1,2,3) own have "well_tracked C (perform c s)" by (rule well_tracked_perform)
  moreover from Cons.prems(1) have "map_inv (perform c s)" by (rule map_inv_perform)
  ultimately show ?case using Cons.IH Cons.prems(3) rest by simp
qed

lemma well_tracked_run:
  "distinct (map fst (c_schema C)) \<Longrightarrow> name_unshared C cs \<Longrightarrow> well_tracked C (run N cs)"
  unfolding run_def using map_inv_init well_tracked_init by (rule well_tracked_fold)

text \<open>
  What reading gives on the reference \<open>create\<close> returns: on an entity (a fresh one,
  or a tracked one it updated) the transformed value of the data for a readable
  property and \<open>undefined\<close> for an unreadable one; on a proxy it resolved the same
  through the delegate, but the captured id for \<open>id\<close>.
\<close>

lemma loaded_reads:
  "loaded C d e \<Longrightarrow> (n, p) \<in> set (c_schema C) \<Longrightarrow>
     \<exists>t v. transform p = Some t \<and> t (lookup d n) = Inr v \<and>
           entity_get e n = (if readable p then v else Undefined)"
  by (auto simp add: loaded_def entity_get_def lookup_def)

lemma entity_reads:
  assumes le: "loaded C d e" and h: "heap s1 a = Some (Entity e)"
  shows "schema_of s1 a = c_schema C \<and>
        (\<forall>(n, p) \<in> set (c_schema C).
           \<exists>t v. transform p = Some t \<and> t (lookup d n) = Inr v \<and>
                 get_prop s1 a n =
                   Inr (if is_proxy s1 a \<and> n = ''id'' then obj_id s1 a
                        else if readable p then v else Undefined))"
proof -
  from le have proto: "e_proto e = C" by (simp add: loaded_def)
  have np: "\<not> is_proxy s1 a" using h by (simp add: is_proxy_def)
  have sch: "schema_of s1 a = c_schema C" using h proto by (simp add: schema_of_def)
  have rd: "\<exists>t v. transform q = Some t \<and> t (lookup d n) = Inr v \<and>
               get_prop s1 a n =
                 Inr (if is_proxy s1 a \<and> n = ''id'' then obj_id s1 a
                      else if readable q then v else Undefined)"
    if nq: "(n, q) \<in> set (c_schema C)" for n q
  proof -
    from loaded_reads [OF le nq] obtain t v where
      t: "transform q = Some t" "t (lookup d n) = Inr v"
        "entity_get e n = (if readable q then v else Undefined)"
      by blast
    from h have "get_prop s1 a n = Inr (entity_get e n)" by (simp add: get_prop_def)
    with t np show ?thesis by auto
  qed
  from sch rd show ?thesis by blast
qed

lemma create_returns_reads:
  assumes d: "distinct (map fst (c_schema C))"
      and wt: "well_tracked C s"
      and cr: "create C data s = (Inr a, s1)"
  shows "schema_of s1 a = c_schema C"
    and "\<forall>(n, p) \<in> set (c_schema C).
           \<exists>t v. transform p = Some t \<and> t (lookup (or_empty data) n) = Inr v \<and>
                 get_prop s1 a n =
                   Inr (if is_proxy s1 a \<and> n = ''id'' then obj_id s1 a
                        else if readable p then v else Undefined)"
proof -
  let ?d = "or_empty data"
  have "schema_of s1 a = c_schema C \<and>
        (\<forall>(n, p) \<in> set (c_schema C).
           \<exists>t v. transform p = Some t \<and> t (lookup ?d n) = Inr v \<and>
                 get_prop s1 a n =
                   Inr (if is_proxy s1 a \<and> n = ''id'' then obj_id s1 a
                        else if readable p then v else Undefined))"
    using wt
  proof (cases rule: create_cases [where data = data])
    case (Fail x e)
    with cr show ?thesis by simp
  next
    case (Unregistered x e)
    with cr show ?thesis by simp
  next
    case (Fresh e)
    let ?e = "e\<lparr>e_fields := constructor_call C (e_fields e)\<rparr>"
    from blank_built_loaded [OF Fresh(1) d] have le: "loaded C ?d ?e" by simp
    from Fresh(3) cr have h: "heap s1 a = Some (Entity ?e)" by auto
    from le h show ?thesis by (rule entity_reads)
  next
    case (Update e x e0 e1)
    have le: "loaded C ?d e1"
      using loadProperties_frame [OF Update(7)] loadProperties_loaded [OF Update(7) d] Update(5,6)
      by (auto simp add: loaded_def)
    from Update(8) cr have h: "heap s1 a = Some (Entity e1)" by auto
    from le h show ?thesis by (rule entity_reads)
  next
    case (Resolve e x p)
    let ?p = "p\<lparr>p_object := Some (fresh s), p_fields := constructor_call C (p_fields p)\<rparr>"
    from blank_built_loaded [OF Resolve(1) d] have le: "loaded C ?d e" .
    from Resolve(7) cr Resolve(3) have
      h: "heap s1 a = Some (Proxy ?p)" and hd: "heap s1 (fresh s) = Some (Entity e)"
      by auto
    have ip: "is_proxy s1 a" and oi: "obj_id s1 a = p_id p"
      using h by (simp_all add: is_proxy_def obj_id_def)
    have sch: "schema_of s1 a = c_schema C"
      using h Resolve(5) by (simp add: schema_of_def)
    have rd: "\<exists>t v. transform q = Some t \<and> t (lookup ?d n) = Inr v \<and>
                 get_prop s1 a n =
                   Inr (if is_proxy s1 a \<and> n = ''id'' then obj_id s1 a
                        else if readable q then v else Undefined)"
      if nq: "(n, q) \<in> set (c_schema C)" for n q
    proof -
      from loaded_reads [OF le nq] obtain t v where
        t: "transform q = Some t" "t (lookup ?d n) = Inr v"
          "entity_get e n = (if readable q then v else Undefined)"
        by blast
      show ?thesis
      proof (cases "n = ''id''")
        case True
        then have "n \<notin> set (p_forwards ?p)" using Resolve(6) by simp
        with True h have "get_prop s1 a n = Inr (p_id p)" by (simp add: get_prop_def)
        with True ip oi t show ?thesis by auto
      next
        case False
        with nq have "n \<in> set (p_forwards ?p)"
          using Resolve(6) by (auto simp add: rev_image_eqI)
        with h hd have "get_prop s1 a n = Inr (entity_get e n)" by (simp add: get_prop_def)
        with False t show ?thesis by auto
      qed
    qed
    from sch rd show ?thesis by blast
  qed
  then show "schema_of s1 a = c_schema C"
    and "\<forall>(n, p) \<in> set (c_schema C).
           \<exists>t v. transform p = Some t \<and> t (lookup (or_empty data) n) = Inr v \<and>
                 get_prop s1 a n =
                   Inr (if is_proxy s1 a \<and> n = ''id'' then obj_id s1 a
                        else if readable p then v else Undefined)"
    by blast+
qed

section \<open>At most one tracked object for a defined id\<close>

lemma loose_eq_sym: "loose_eq N a b = loose_eq N b a"
  by (cases a; cases b) (simp_all add: eq_commute)

lemma loose_eq_nullish:
  "loose_eq N x y \<Longrightarrow> x = Undefined \<or> x = Null \<Longrightarrow> y = Undefined \<or> y = Null"
  by (cases x; cases y) simp_all

lemma nullish_loose_eq:
  "x = Undefined \<or> x = Null \<Longrightarrow> y = Undefined \<or> y = Null \<Longrightarrow> loose_eq N x y"
  by auto

lemma transitive_on_Undefined:
  assumes "transitive_on N S"
  shows "transitive_on N (insert Undefined S)"
  unfolding transitive_on_def
proof (intro ballI impI)
  fix a b c
  assume abc: "a \<in> insert Undefined S" "b \<in> insert Undefined S" "c \<in> insert Undefined S"
    and l: "loose_eq N a b \<and> loose_eq N b c"
  from l have ab: "loose_eq N a b" and ba: "loose_eq N b a" and bc: "loose_eq N b c" and cb: "loose_eq N c b"
    by (simp_all add: loose_eq_sym)
  show "loose_eq N a c"
  proof (cases "a = Undefined \<or> b = Undefined \<or> c = Undefined")
    case False
    with abc l assms show ?thesis unfolding transitive_on_def by blast
  next
    case True
    then have b: "b = Undefined \<or> b = Null"
      using loose_eq_nullish [OF ab] loose_eq_nullish [OF cb] by blast
    from loose_eq_nullish [OF ba b] loose_eq_nullish [OF bc b] show ?thesis
      by (rule nullish_loose_eq)
  qed
qed

lemma first_wins_Nil [simp]: "first_wins N []"
  by (simp add: first_wins_def)

lemma first_wins_snoc:
  "first_wins N (ids @ [k]) \<longleftrightarrow>
     first_wins N ids \<and> (k \<noteq> Undefined \<longrightarrow> (\<forall>x \<in> set ids. \<not> loose_eq N x k))"
proof
  assume a: "first_wins N (ids @ [k])"
  have "first_wins N ids"
    unfolding first_wins_def
  proof (intro allI impI)
    fix j i assume j: "j < length ids" "ids ! j \<noteq> Undefined" and i: "i < j"
    with a [unfolded first_wins_def, rule_format, of j i]
    show "\<not> loose_eq N (ids ! i) (ids ! j)" by (simp add: nth_append)
  qed
  moreover have "\<not> loose_eq N x k" if "k \<noteq> Undefined" "x \<in> set ids" for x
  proof -
    from that(2) obtain i where i: "i < length ids" "ids ! i = x" by (auto simp add: in_set_conv_nth)
    with a [unfolded first_wins_def, rule_format, of "length ids" i] that(1)
    show ?thesis by (simp add: nth_append)
  qed
  ultimately show "first_wins N ids \<and> (k \<noteq> Undefined \<longrightarrow> (\<forall>x \<in> set ids. \<not> loose_eq N x k))" by blast
next
  assume a: "first_wins N ids \<and> (k \<noteq> Undefined \<longrightarrow> (\<forall>x \<in> set ids. \<not> loose_eq N x k))"
  show "first_wins N (ids @ [k])"
    unfolding first_wins_def
  proof (intro allI impI)
    fix j i assume j: "j < length (ids @ [k])" "(ids @ [k]) ! j \<noteq> Undefined" and i: "i < j"
    show "\<not> loose_eq N ((ids @ [k]) ! i) ((ids @ [k]) ! j)"
    proof (cases "j < length ids")
      case True
      with a j i show ?thesis by (auto simp add: first_wins_def nth_append)
    next
      case False
      with j have jl: "j = length ids" by simp
      with i have "ids ! i \<in> set ids" by simp
      with a j jl i show ?thesis by (auto simp add: nth_append)
    qed
  qed
qed

lemma first_wins_update:
  assumes fw: "first_wins N ids"
      and m: "m < length ids" "loose_eq N (ids ! m) k" "\<forall>i < m. \<not> loose_eq N (ids ! i) k"
      and tr: "transitive_on N S" "set ids \<subseteq> S" "k \<in> S"
  shows "first_wins N (ids[m := k])"
  unfolding first_wins_def
proof (intro allI impI)
  fix j i assume j: "j < length (ids[m := k])" "ids[m := k] ! j \<noteq> Undefined" and i: "i < j"
  from j(1) have jl: "j < length ids" by simp
  with i have il: "i < length ids" by simp
  show "\<not> loose_eq N (ids[m := k] ! i) (ids[m := k] ! j)"
  proof (cases "j = m")
    case True
    with i m(1,3) show ?thesis by simp
  next
    case jm: False
    with j jl have dj: "ids ! j \<noteq> Undefined" by simp
    show ?thesis
    proof (cases "i = m")
      case False
      with jm fw dj jl i show ?thesis by (simp add: first_wins_def)
    next
      case True
      have "\<not> loose_eq N k (ids ! j)"
      proof
        assume "loose_eq N k (ids ! j)"
        moreover have "ids ! m \<in> S" "ids ! j \<in> S" using tr(2) m(1) jl by auto
        ultimately have "loose_eq N (ids ! m) (ids ! j)"
          using tr(1,3) m(2) unfolding transitive_on_def by blast
        with fw dj jl i True show False by (simp add: first_wins_def)
      qed
      with True jm m(1) show ?thesis by simp
    qed
  qed
qed

lemma first_wins_unique:
  "first_wins N ids \<Longrightarrow> k \<noteq> Undefined \<Longrightarrow> loose_eq N k k \<Longrightarrow>
     length (filter (\<lambda>x. x = k) ids) \<le> 1"
proof (induction ids rule: rev_induct)
  case Nil
  then show ?case by simp
next
  case (snoc x xs)
  from snoc.prems(1) have fw: "first_wins N xs" and
    nm: "x \<noteq> Undefined \<longrightarrow> (\<forall>y \<in> set xs. \<not> loose_eq N y x)"
    by (simp_all add: first_wins_snoc)
  show ?case
  proof (cases "x = k")
    case True
    with nm snoc.prems(2,3) have "\<forall>y \<in> set xs. y \<noteq> k" by auto
    then have "filter (\<lambda>x. x = k) xs = []" by (simp add: filter_empty_conv)
    with True show ?thesis by simp
  next
    case False
    with snoc.IH [OF fw snoc.prems(2,3)] show ?thesis by simp
  qed
qed

lemma bucket_objectMap: "objectMap s' = objectMap s \<Longrightarrow> bucket s' n = bucket s n"
  by (simp add: bucket_def)

lemma id_inv_same:
  assumes inv: "id_inv S s" and om: "objectMap s' = objectMap s" and fr: "fresh s \<le> fresh s'"
      and tn: "toNumber s' = toNumber s"
      and ids: "\<forall>a < fresh s. obj_id s' a = obj_id s a"
      and rd: "\<forall>a < fresh s. id_read s a \<longrightarrow> id_read s' a"
  shows "id_inv S s'"
proof -
  have b: "bucket s' n = bucket s n" for n using om by (rule bucket_objectMap)
  have lt: "a < fresh s" if "a \<in> set (bucket s n)" for a n
    using inv that by (auto simp add: id_inv_def)
  have m: "map (obj_id s') (bucket s n) = map (obj_id s) (bucket s n)" for n
    using ids lt by (intro map_cong) auto
  have 1: "\<forall>n. \<forall>a \<in> set (bucket s' n). a < fresh s' \<and> id_read s' a \<and> obj_id s' a \<in> S"
  proof (intro allI ballI)
    fix n a assume "a \<in> set (bucket s' n)"
    then have "a \<in> set (bucket s n)" by (simp add: b)
    with inv have "a < fresh s" "id_read s a" "obj_id s a \<in> S" by (auto simp add: id_inv_def)
    with ids rd fr show "a < fresh s' \<and> id_read s' a \<and> obj_id s' a \<in> S" by simp
  qed
  from 1 inv show ?thesis by (simp add: id_inv_def b m tn)
qed

lemma id_inv_added:
  assumes inv: "id_inv S s"
      and om: "objectMap s' = (objectMap s)(n0 \<mapsto> bucket s n0 @ [fresh s])"
      and fr: "fresh s' = Suc (fresh s)"
      and tn: "toNumber s' = toNumber s"
      and ids: "\<forall>a < fresh s. obj_id s' a = obj_id s a"
      and rd: "\<forall>a < fresh s. id_read s a \<longrightarrow> id_read s' a"
      and new: "obj_id s' (fresh s) = k" "k \<in> S" "id_read s' (fresh s)"
      and miss: "k \<noteq> Undefined \<longrightarrow> (\<forall>a \<in> set (bucket s n0). \<not> loose_eq (toNumber s) (obj_id s a) k)"
  shows "id_inv S s'"
proof -
  have b: "bucket s' n = (if n = n0 then bucket s n0 @ [fresh s] else bucket s n)" for n
    using om by (simp add: bucket_def)
  have lt: "a < fresh s" if "a \<in> set (bucket s n)" for a n
    using inv that by (auto simp add: id_inv_def)
  then have nin: "fresh s \<notin> set (bucket s n)" for n by auto
  have m: "map (obj_id s') (bucket s n) = map (obj_id s) (bucket s n)" for n
    using ids lt by (intro map_cong) auto
  have 1: "\<forall>n. \<forall>a \<in> set (bucket s' n). a < fresh s' \<and> id_read s' a \<and> obj_id s' a \<in> S"
  proof (intro allI ballI)
    fix n a assume a: "a \<in> set (bucket s' n)"
    show "a < fresh s' \<and> id_read s' a \<and> obj_id s' a \<in> S"
    proof (cases "a = fresh s")
      case True
      with new fr show ?thesis by simp
    next
      case False
      with a b have "a \<in> set (bucket s n) \<or> a \<in> set (bucket s n0)" by (auto split: if_splits)
      then obtain n' where n': "a \<in> set (bucket s n')" by blast
      with inv have "a < fresh s" "id_read s a" "obj_id s a \<in> S" by (auto simp add: id_inv_def)
      with ids rd fr show ?thesis by simp
    qed
  qed
  have 2: "\<forall>n. distinct (bucket s' n)"
    using inv nin by (auto simp add: b id_inv_def)
  have 3: "\<forall>n n'. n \<noteq> n' \<longrightarrow> set (bucket s' n) \<inter> set (bucket s' n') = {}"
    using inv nin by (auto simp add: b id_inv_def)
  have 4: "\<forall>n. first_wins (toNumber s') (map (obj_id s') (bucket s' n))"
  proof
    fix n
    show "first_wins (toNumber s') (map (obj_id s') (bucket s' n))"
    proof (cases "n = n0")
      case False
      with inv show ?thesis by (simp add: b m id_inv_def tn)
    next
      case True
      have "first_wins (toNumber s) (map (obj_id s) (bucket s n0))" using inv by (simp add: id_inv_def)
      with miss new(1) True show ?thesis
        by (simp add: b m first_wins_snoc tn)
    qed
  qed
  from 1 2 3 4 show ?thesis by (simp add: id_inv_def)
qed

lemma id_inv_changed:
  assumes inv: "id_inv S s" and tr: "transitive_on (toNumber s) S"
      and om: "objectMap s' = objectMap s" and fr: "fresh s \<le> fresh s'"
      and tn: "toNumber s' = toNumber s"
      and hit: "find (\<lambda>a. loose_eq (toNumber s) (obj_id s a) k) (bucket s n0) = Some x"
      and new: "obj_id s' x = k" "k \<in> S"
      and ids: "\<forall>a < fresh s. a \<noteq> x \<longrightarrow> obj_id s' a = obj_id s a"
      and rd: "\<forall>a < fresh s. id_read s a \<longrightarrow> id_read s' a"
  shows "id_inv S s'"
proof -
  let ?b = "bucket s n0"
  have b: "bucket s' n = bucket s n" for n using om by (rule bucket_objectMap)
  have lt: "a < fresh s" if "a \<in> set (bucket s n)" for a n
    using inv that by (auto simp add: id_inv_def)
  from hit obtain m where m: "m < length ?b" "?b ! m = x" "loose_eq (toNumber s) (obj_id s x) k"
    "\<forall>j < m. \<not> loose_eq (toNumber s) (obj_id s (?b ! j)) k"
    by (auto simp add: find_Some_iff)
  then have xin: "x \<in> set ?b" by auto
  have dist: "distinct ?b" using inv by (simp add: id_inv_def)
  have other: "map (obj_id s') (bucket s n) = map (obj_id s) (bucket s n)" if "n \<noteq> n0" for n
  proof (intro map_cong refl)
    fix a assume a: "a \<in> set (bucket s n)"
    from inv that have "set (bucket s n) \<inter> set (bucket s n0) = {}" by (simp add: id_inv_def)
    with a xin have "a \<noteq> x" by blast
    with ids lt [OF a] show "obj_id s' a = obj_id s a" by simp
  qed
  have here: "map (obj_id s') ?b = (map (obj_id s) ?b)[m := k]"
  proof (intro nth_equalityI)
    fix i assume "i < length (map (obj_id s') ?b)"
    then have i: "i < length ?b" by simp
    show "map (obj_id s') ?b ! i = (map (obj_id s) ?b)[m := k] ! i"
    proof (cases "i = m")
      case True
      with m new i show ?thesis by simp
    next
      case False
      with dist i m(1,2) have "?b ! i \<noteq> x" by (auto simp add: nth_eq_iff_index_eq)
      moreover have "?b ! i < fresh s" using i by (intro lt [where n = n0]) simp
      ultimately show ?thesis using ids i False by simp
    qed
  qed simp
  have 1: "\<forall>n. \<forall>a \<in> set (bucket s' n). a < fresh s' \<and> id_read s' a \<and> obj_id s' a \<in> S"
  proof (intro allI ballI)
    fix n a assume "a \<in> set (bucket s' n)"
    then have a: "a \<in> set (bucket s n)" by (simp add: b)
    with inv have old: "a < fresh s" "id_read s a" "obj_id s a \<in> S" by (auto simp add: id_inv_def)
    show "a < fresh s' \<and> id_read s' a \<and> obj_id s' a \<in> S"
      using old fr rd ids new by (cases "a = x") auto
  qed
  have sub: "set (map (obj_id s) ?b) \<subseteq> S"
    using inv by (auto simp add: id_inv_def)
  have 4: "first_wins (toNumber s') (map (obj_id s') (bucket s' n))" for n
  proof (cases "n = n0")
    case False
    with inv show ?thesis by (simp add: b other id_inv_def tn)
  next
    case True
    have "first_wins (toNumber s) (map (obj_id s) ?b)" using inv by (simp add: id_inv_def)
    then have "first_wins (toNumber s) ((map (obj_id s) ?b)[m := k])"
      using m tr sub new(2) by (intro first_wins_update [where S = S]) simp_all
    with True show ?thesis by (simp add: b here tn)
  qed
  from 1 4 inv show ?thesis by (simp add: id_inv_def b)
qed

lemma defineProperties_last:
  "defineProperties e0 ps d = (Inr u, e) \<Longrightarrow> n \<in> fst ` set ps \<Longrightarrow>
     \<exists>p t v. (n, p) \<in> set ps \<and> e_accessors e n = Some p \<and> transform p = Some t \<and>
             t (lookup d n) = Inr v \<and> e_values e n = Some v"
proof (induction ps arbitrary: e0)
  case Nil
  then show ?case by simp
next
  case (Cons np ps)
  obtain m q where np: "np = (m, q)" by (cases np)
  from Cons.prems(1) np obtain e' where
    step: "defineProperty e0 m q d = (Inr (), e')" and rest: "defineProperties e' ps d = (Inr u, e)"
    by (auto split: prod.splits sum.splits)
  show ?case
  proof (cases "n \<in> fst ` set ps")
    case True
    from Cons.IH [OF rest True] show ?thesis by auto
  next
    case False
    with Cons.prems(2) np have nm: "n = m" by auto
    from defineProperties_frame [OF rest] False have
      "e_accessors e n = e_accessors e' n" "e_values e n = e_values e' n" by auto
    with step nm np show ?thesis by (auto simp add: defineProperty_Inr)
  qed
qed

lemma loadProperties_id:
  "loadProperties e0 ps d = (r, e1) \<Longrightarrow>
   \<forall>(n, p) \<in> set ps. n = ''id'' \<longrightarrow> transform p = Some Inr \<Longrightarrow>
     e_values e1 ''id'' = e_values e0 ''id'' \<or> e_values e1 ''id'' = Some (lookup d ''id'')"
proof (induction ps arbitrary: e0)
  case Nil
  then show ?case by simp
next
  case (Cons np ps)
  obtain m q where np: "np = (m, q)" by (cases np)
  obtain r' e' where step: "loadPropertyValue e0 m q d = (r', e')"
    by (cases "loadPropertyValue e0 m q d")
  have one: "e_values e' ''id'' = e_values e0 ''id'' \<or> e_values e' ''id'' = Some (lookup d ''id'')"
    using step Cons.prems(2) np
    by (auto simp add: loadPropertyValue_def Let_def split: option.splits sum.splits)
  show ?case
  proof (cases r')
    case (Inl x)
    with step Cons.prems(1) np one show ?thesis by auto
  next
    case (Inr x)
    with step Cons.prems(1) np have rest: "loadProperties e' ps d = (r, e1)" by simp
    from Cons.prems(2) have "\<forall>(n, p) \<in> set ps. n = ''id'' \<longrightarrow> transform p = Some Inr" by auto
    from Cons.IH [OF rest this] one show ?thesis by auto
  qed
qed

lemma built_entity_id:
  assumes kept: "id_kept C"
      and built: "defineProperties (blank C) (c_schema C) d = (Inr u, e)"
  shows "e_proto e = C" and "\<exists>p. e_accessors e ''id'' = Some p \<and> readable p"
    and "entity_get (e\<lparr>e_fields := f\<rparr>) ''id'' = lookup d ''id''"
proof -
  from defineProperties_frame [OF built] show "e_proto e = C" by (simp add: blank_def)
  from kept have "''id'' \<in> fst ` set (c_schema C)" by (simp add: id_kept_def)
  from defineProperties_last [OF built this] obtain p t v where
    p: "(''id'', p) \<in> set (c_schema C)" "e_accessors e ''id'' = Some p" "transform p = Some t"
      "t (lookup d ''id'') = Inr v" "e_values e ''id'' = Some v"
    by blast
  from kept p(1) have rp: "readable p" "transform p = Some Inr" by (auto simp add: id_kept_def)
  with p show "\<exists>p. e_accessors e ''id'' = Some p \<and> readable p" by blast
  from rp p show "entity_get (e\<lparr>e_fields := f\<rparr>) ''id'' = lookup d ''id''"
    by (auto simp add: entity_get_def lookup_def)
qed

lemma id_inv_init: "id_inv S (init_state N)"
  by (simp add: id_inv_def init_state_def bucket_def)

lemma id_inv_below: "id_inv S s \<Longrightarrow> \<forall>a \<in> set (getAll C s). a < fresh s"
  by (simp add: id_inv_def getAll_def)

lemma getFromObjectMap_find:
  "getFromObjectMap C k s = Some x \<Longrightarrow>
     find (\<lambda>a. loose_eq (toNumber s) (obj_id s a) k) (bucket s (c_name C)) = Some x"
  by (auto simp add: getFromObjectMap_def bucket_def split: if_splits option.splits)

lemma getFromObjectMap_miss:
  "getFromObjectMap C k s = None \<Longrightarrow>
     k \<noteq> Undefined \<longrightarrow> (\<forall>a \<in> set (bucket s (c_name C)). \<not> loose_eq (toNumber s) (obj_id s a) k)"
  by (auto simp add: getFromObjectMap_def bucket_def find_None_iff split: if_splits option.splits)

lemma getReference_preserves:
  assumes inv: "id_inv S s" and iS: "i \<in> S"
  shows "id_inv S (snd (getReference C i s))"
proof (cases "getFromObjectMap C i s")
  case (Some x)
  with inv show ?thesis by (simp add: getReference_def)
next
  case None
  let ?E = "fst (getProxyClass C s)"
  let ?t = "alloc (Proxy (new_Proxy ?E i)) (snd (getProxyClass C s))"
  let ?s' = "snd (getReference C i s)"
  from None have s': "?s' = snd (addToObjectMap C (fresh s) ?t)"
    by (simp add: getReference_def createProxy_state)
  from id_inv_below [OF inv] have nt: "fresh s \<notin> set (bucket ?t (c_name C))"
    by (auto simp add: getAll_def)
  have h: "heap ?s' = (heap s)(fresh s \<mapsto> Proxy (new_Proxy ?E i))" and f: "fresh ?s' = Suc (fresh s)"
    and tn: "toNumber ?s' = toNumber s"
    unfolding s' by simp_all
  have ids: "\<forall>a < fresh s. obj_id ?s' a = obj_id s a" by (simp add: obj_id_def h)
  have rd: "\<forall>a < fresh s. id_read s a \<longrightarrow> id_read ?s' a" by (simp add: id_read_def h)
  from nt show ?thesis
  proof (cases rule: addToObjectMap_cases)
    case (Throws x)
    then have om: "objectMap ?s' = objectMap s" unfolding s' by simp
    from f have fr: "fresh s \<le> fresh ?s'" by simp
    from inv om fr tn ids rd show ?thesis by (rule id_inv_same)
  next
    case Stores
    then have om: "objectMap ?s' = (objectMap s)(c_name C \<mapsto> bucket s (c_name C) @ [fresh s])"
      unfolding s' by simp
    show ?thesis
    proof (rule id_inv_added [OF inv om f tn ids rd])
      show "obj_id ?s' (fresh s) = i" by (simp add: obj_id_def h new_Proxy_def)
      show "i \<in> S" by (rule iS)
      show "id_read ?s' (fresh s)" by (simp add: id_read_def h)
      show "i \<noteq> Undefined \<longrightarrow> (\<forall>a \<in> set (bucket s (c_name C)). \<not> loose_eq (toNumber s) (obj_id s a) i)"
        using None by (rule getFromObjectMap_miss)
    qed
  qed
qed

lemma create_preserves:
  assumes inv: "id_inv S s" and tr: "transitive_on (toNumber s) S" and kept: "id_kept C"
      and kS: "lookup (or_empty data) ''id'' \<in> S"
  shows "id_inv S (snd (create C data s))"
proof (cases "defineProperties (blank C) (c_schema C) (or_empty data)")
  case (Pair r e)
  let ?d = "or_empty data"
  let ?k = "lookup ?d ''id''"
  let ?s1 = "alloc (Entity e) s"
  let ?s2 = "snd (getProxyClass C ?s1)"
  let ?P = "fst (getProxyClass C ?s1)"
  let ?s' = "snd (create C data s)"
  have kept_heap: "id_inv S t"
    if "objectMap t = objectMap s" "fresh s \<le> fresh t" "toNumber t = toNumber s"
      "\<forall>a < fresh s. heap t a = heap s a" for t
    using inv that(1,2,3)
  proof (rule id_inv_same)
    show "\<forall>a < fresh s. obj_id t a = obj_id s a" using that(4) by (simp add: obj_id_def)
    show "\<forall>a < fresh s. id_read s a \<longrightarrow> id_read t a" using that(4) by (simp add: id_read_def)
  qed
  show ?thesis
  proof (cases r)
    case (Inl y)
    with Pair have "?s' = ?s1" by (simp add: create_state_fail)
    moreover have "id_inv S ?s1" by (rule kept_heap) simp_all
    ultimately show ?thesis by simp
  next
    case (Inr u)
    with Pair have built: "defineProperties (blank C) (c_schema C) ?d = (Inr u, e)" by simp
    note be = built_entity_id [OF kept built]
    have look: "getFromObjectMap C ?k ?s1 = getFromObjectMap C ?k s"
      using id_inv_below [OF inv] by (rule getFromObjectMap_alloc)
    show ?thesis
    proof (cases "getFromObjectMap C ?k s")
      case None
      let ?e' = "e\<lparr>e_fields := constructor_call C (e_fields e)\<rparr>"
      let ?t = "?s1\<lparr>heap := (heap ?s1)(fresh s \<mapsto> Entity ?e')\<rparr>"
      from id_inv_below [OF inv] have nt: "fresh s \<notin> set (bucket ?t (c_name C))"
        by (auto simp add: getAll_def)
      have rh: "run_hook (constructor_call C) (fresh s) ?s1 = ?t"
        by (rule run_hook_entity) simp
      have s': "?s' = snd (addToObjectMap C (fresh s) ?t)"
        using create_state_fresh [of C data u e s] built look None by (simp add: rh)
      have h: "heap ?s' = (heap s)(fresh s \<mapsto> Entity ?e')" and f: "fresh ?s' = Suc (fresh s)"
        and tn: "toNumber ?s' = toNumber s"
        unfolding s' by simp_all
      have ids: "\<forall>a < fresh s. obj_id ?s' a = obj_id s a" by (simp add: obj_id_def h)
      have rd: "\<forall>a < fresh s. id_read s a \<longrightarrow> id_read ?s' a" by (simp add: id_read_def h)
      from nt show ?thesis
      proof (cases rule: addToObjectMap_cases)
        case (Throws x)
        then have om: "objectMap ?s' = objectMap s" unfolding s' by simp
        from f have fr: "fresh s \<le> fresh ?s'" by simp
        from inv om fr tn ids rd show ?thesis by (rule id_inv_same)
      next
        case Stores
        then have om: "objectMap ?s' = (objectMap s)(c_name C \<mapsto> bucket s (c_name C) @ [fresh s])"
          unfolding s' by simp
        show ?thesis
        proof (rule id_inv_added [OF inv om f tn ids rd])
          show "obj_id ?s' (fresh s) = ?k" using be(3) by (simp add: obj_id_def h)
          show "?k \<in> S" by (rule kS)
          show "id_read ?s' (fresh s)" using be(1,2) kept by (simp add: id_read_def h)
          show "?k \<noteq> Undefined \<longrightarrow> (\<forall>a \<in> set (bucket s (c_name C)). \<not> loose_eq (toNumber s) (obj_id s a) ?k)"
            using None by (rule getFromObjectMap_miss)
        qed
      qed
    next
      case (Some x)
      note findx = Some
      have look1: "getFromObjectMap C ?k ?s1 = Some x" using look Some by simp
      from getFromObjectMap_Some [OF Some] id_inv_below [OF inv] have xlt: "x < fresh s" by auto
      from getFromObjectMap_Some [OF Some] have xin: "x \<in> set (bucket s (c_name C))"
        by (simp add: getAll_def)
      have h2: "heap ?s2 = (heap s)(fresh s \<mapsto> Entity e)" and f2: "fresh ?s2 = Suc (fresh s)"
        and o2: "objectMap ?s2 = objectMap s" and t2: "toNumber ?s2 = toNumber s"
        by simp_all
      have hx: "heap ?s2 x = heap s x" using xlt by (simp add: h2)
      have inv2: "id_inv S ?s2" by (rule kept_heap) (simp_all add: h2 f2 o2)
      show ?thesis
      proof (cases "instanceof ?s2 x ?P")
        case True
        then obtain p where p: "heap s x = Some (Proxy p)"
          using hx by (auto simp add: instanceof_def split: option.splits obj.splits)
        let ?p = "p\<lparr>p_object := Some (fresh s), p_fields := constructor_call C (p_fields p)\<rparr>"
        have "?s' = run_hook (constructor_call C) x (set_object x (fresh s) ?s2)"
          using built look1 True by (rule create_state_resolve)
        also have "\<dots> = ?s2\<lparr>heap := (heap ?s2)(x \<mapsto> Proxy ?p)\<rparr>"
          using p hx by (simp add: set_object_def run_hook_def)
        finally have s': "?s' = ?s2\<lparr>heap := (heap ?s2)(x \<mapsto> Proxy ?p)\<rparr>" .
        show ?thesis
          using inv
        proof (rule id_inv_same)
          show "objectMap ?s' = objectMap s" unfolding s' by (simp add: o2)
          show "fresh s \<le> fresh ?s'" unfolding s' by (simp add: f2)
          show "toNumber ?s' = toNumber s" unfolding s' by (simp add: t2)
          show "\<forall>a < fresh s. obj_id ?s' a = obj_id s a"
            unfolding s' using p by (simp add: obj_id_def h2)
          show "\<forall>a < fresh s. id_read s a \<longrightarrow> id_read ?s' a"
            unfolding s' by (simp add: id_read_def h2)
        qed
      next
        case False
        have upd: "?s' = snd (update x ?d ?s2)"
          using built look1 False by (rule create_state_update)
        show ?thesis
        proof (cases "heap s x")
          case None
          then have "update x ?d ?s2 = (Inl (TypeError ''no such object''), ?s2)"
            using hx by (simp add: update_def)
          with upd have "?s' = ?s2" by simp
          with inv2 show ?thesis by simp
        next
          case (Some ob)
          show ?thesis
          proof (cases ob)
            case (Proxy p)
            with Some hx have "snd (update x ?d ?s2) = ?s2"
              by (simp add: update_def split: list.splits)
            with upd have "?s' = ?s2" by simp
            with inv2 show ?thesis by simp
          next
            case (Entity e0)
            obtain r1 e1 where lp: "loadProperties e0 (c_schema (e_proto e0)) ?d = (r1, e1)"
              by (cases "loadProperties e0 (c_schema (e_proto e0)) ?d")
            with Some Entity hx have "snd (update x ?d ?s2) = ?s2\<lparr>heap := (heap ?s2)(x \<mapsto> Entity e1)\<rparr>"
              by (simp add: update_def)
            with upd have s': "?s' = ?s2\<lparr>heap := (heap ?s2)(x \<mapsto> Entity e1)\<rparr>"
              by simp
            from inv xin have "id_read s x" by (auto simp add: id_inv_def)
            with Some Entity obtain p where
              k0: "id_kept (e_proto e0)" and acc: "e_accessors e0 ''id'' = Some p" "readable p"
              by (auto simp add: id_read_def)
            from loadProperties_frame [OF lp] have
              fr1: "e_proto e1 = e_proto e0" "e_accessors e1 = e_accessors e0" by simp_all
            have idt: "\<forall>(n, p) \<in> set (c_schema (e_proto e0)). n = ''id'' \<longrightarrow> transform p = Some Inr"
              using k0 by (auto simp add: id_kept_def)
            have old_id: "obj_id s x = lookup (e_values e0) ''id''"
              using Some Entity acc by (simp add: obj_id_def entity_get_def)
            have new_id: "obj_id ?s' x = lookup (e_values e1) ''id''"
              unfolding s' using acc fr1 by (simp add: obj_id_def entity_get_def)
            have others: "\<forall>a < fresh s. a \<noteq> x \<longrightarrow> obj_id ?s' a = obj_id s a"
              unfolding s' by (simp add: obj_id_def h2)
            have rd: "\<forall>a < fresh s. id_read s a \<longrightarrow> id_read ?s' a"
              unfolding s' using k0 acc fr1 by (simp add: id_read_def h2)
            have om: "objectMap ?s' = objectMap s" unfolding s' by (simp add: o2)
            have fr: "fresh s \<le> fresh ?s'" unfolding s' by (simp add: f2)
            have tn: "toNumber ?s' = toNumber s" unfolding s' by (simp add: t2)
            from loadProperties_id [OF lp idt] show ?thesis
            proof
              assume "e_values e1 ''id'' = e_values e0 ''id''"
              with old_id new_id have "obj_id ?s' x = obj_id s x" by (simp add: lookup_def)
              have "\<forall>a < fresh s. obj_id ?s' a = obj_id s a"
              proof (intro allI impI)
                fix a assume "a < fresh s"
                with others \<open>obj_id ?s' x = obj_id s x\<close> show "obj_id ?s' a = obj_id s a"
                  by (cases "a = x") simp_all
              qed
              with inv om fr tn show ?thesis using rd by (rule id_inv_same)
            next
              assume "e_values e1 ''id'' = Some ?k"
              with new_id have nk: "obj_id ?s' x = ?k" by (simp add: lookup_def)
              from inv tr om fr tn getFromObjectMap_find [OF findx] nk kS others rd
              show ?thesis by (rule id_inv_changed)
            qed
          qed
        qed
      qed
    qed
  qed
qed

lemma perform_toNumber: "id_inv S s \<Longrightarrow> toNumber (perform c s) = toNumber s"
proof -
  assume "id_inv S s"
  then have "\<forall>a \<in> set (bucket s (c_name (call_class c))). a < fresh s"
    by (simp add: id_inv_def)
  from perform_touches [OF this] show ?thesis by (simp add: touches_only_def)
qed

lemma perform_preserves:
  assumes "id_inv S s" "transitive_on (toNumber s) S" "id_kept (call_class c)" "call_id c \<in> S"
  shows "id_inv S (perform c s)"
proof (cases c)
  case (Create C data)
  with assms show ?thesis by (simp add: create_preserves)
next
  case (GetReference C i)
  with assms show ?thesis by (simp add: getReference_preserves)
qed

lemma fold_perform_preserves:
  "id_inv S s \<Longrightarrow> transitive_on (toNumber s) S \<Longrightarrow> \<forall>c \<in> set cs. id_kept (call_class c) \<and> call_id c \<in> S \<Longrightarrow>
     id_inv S (fold perform cs s)"
proof (induction cs arbitrary: s)
  case Nil
  then show ?case by simp
next
  case (Cons c cs)
  from Cons.prems have "id_inv S (perform c s)" by (intro perform_preserves) simp_all
  moreover from Cons.prems(1) have "toNumber (perform c s) = toNumber s" by (rule perform_toNumber)
  ultimately show ?case using Cons.IH [of "perform c s"] Cons.prems by simp
qed

lemma tracked_length:
  "length (tracked s C k) = length (filter (\<lambda>x. x = k) (map (obj_id s) (bucket s (c_name C))))"
  by (simp add: tracked_def getAll_def filter_map o_def)
section \<open>The lookup and the undefined id\<close>




text \<open>
  C9, as stated, fails at the id \<open>undefined\<close>: after \<open>getReference(User, undefined)\<close>
  the map tracks an object whose id is \<open>undefined\<close>, and \<open>get(User, undefined)\<close> still
  throws \<open>not loaded\<close>.
\<close>

theorem get_undefined_counterexample:
  "\<forall>N. 0 \<in> set (getAll User (snd (getReference User Undefined (init_state N)))) \<and>
        obj_id (snd (getReference User Undefined (init_state N))) 0 = Undefined \<and>
        fst (get User Undefined (snd (getReference User Undefined (init_state N))))
          = Inl (Error ''not loaded'')"
  by (intro allI conjI; code_simp)

text \<open>
  C9, amended. \<open>get\<close> never changes the state. For an id other than \<open>undefined\<close> that
  some tracked object of the type matches under \<open>==\<close>, it returns the first such object
  of the type's array; in every other case (no match, or the id \<open>undefined\<close>) it throws
  \<open>not loaded\<close>.
\<close>

theorem get_first_match_or_not_loaded:
  "snd (get C i s) = s \<and>
   (if i \<noteq> Undefined \<and> (\<exists>a \<in> set (getAll C s). loose_eq (toNumber s) (obj_id s a) i)
    then \<exists>k < length (getAll C s).
           fst (get C i s) = Inr (getAll C s ! k) \<and>
           loose_eq (toNumber s) (obj_id s (getAll C s ! k)) i \<and>
           (\<forall>j < k. \<not> loose_eq (toNumber s) (obj_id s (getAll C s ! j)) i)
    else fst (get C i s) = Inl (Error ''not loaded''))"
proof -
  let ?eq = "\<lambda>a. loose_eq (toNumber s) (obj_id s a) i"
  have unchanged: "snd (get C i s) = s"
    by (simp add: get_def split: option.splits)
  show ?thesis
  proof (cases "i \<noteq> Undefined \<and> (\<exists>a \<in> set (getAll C s). ?eq a)")
    case True
    then obtain b where b: "find ?eq (getAll C s) = Some b"
      by (cases "find ?eq (getAll C s)") (auto simp add: find_None_iff)
    have look: "getFromObjectMap C i s = Some b"
      using True b by (auto simp add: getFromObjectMap_def getAll_def bucket_def split: option.splits)
    from b obtain k where "k < length (getAll C s)" "getAll C s ! k = b"
      "?eq b" "\<forall>j < k. \<not> ?eq (getAll C s ! j)"
      by (auto simp add: find_Some_iff)
    with look True unchanged show ?thesis
      by (auto simp add: get_def)
  next
    case False
    then have "getFromObjectMap C i s = None"
      by (auto simp add: getFromObjectMap_def getAll_def bucket_def find_None_iff split: option.splits)
    with False unchanged show ?thesis
      by (auto simp add: get_def)
  qed
qed

theorem get_first_match_or_not_loaded_witness:
  "fst (get User (Num 7) (snd (getReference User (Num 7) (init_state decimal)))) = Inr 0"
proof -
  let ?s = "snd (getReference User (Num 7) (init_state decimal))"
  have a: "getAll User ?s = [0]" and b: "obj_id ?s 0 = Num 7"
    by code_simp+
  from get_first_match_or_not_loaded [where C = User and i = "Num 7" and s = ?s] show ?thesis
    by (simp add: a b)
qed

section \<open>Unresolved proxies\<close>



section \<open>The constructor call of create\<close>

text \<open>
  C3 at the class \<open>User\<close>, whose function counts its runs in \<open>inits\<close>. \<open>create\<close> on an
  untracked id returns a fresh entity on which the function has not run (\<open>inits\<close> is
  \<open>undefined\<close>). A proxy has \<open>inits = 1\<close> from its own constructor (line 55), and
  \<open>create\<close> resolving it leaves \<open>inits\<close> at 1: line 213 calls
  \<open>entityClass.constructor\<close>, which for a plain function is \<open>Function\<close>, not the class.
\<close>

theorem create_skips_class_function:
  "\<forall>N. (case create User (Some [''id'' \<mapsto> Num 1]) (init_state N) of
           (r, s1) \<Rightarrow> r = Inr 0 \<and> get_prop s1 0 ''inits'' = Inr Undefined) \<and>
        (case getReference User (Num 1) (init_state N) of
           (p, s1) \<Rightarrow>
             p = Inr 0 \<and> get_prop s1 0 ''inits'' = Inr (Num 1) \<and>
             (case create User (Some [''id'' \<mapsto> Num 1]) s1 of
                (r, s2) \<Rightarrow> r = Inr 0 \<and> get_prop s2 0 ''inits'' = Inr (Num 1)))"
  by (intro allI conjI; code_simp)

section \<open>The delegate of a resolved proxy\<close>

text \<open>
  C5 at the class \<open>User\<close>. The proxy for id 1 starts without a delegate; the first
  \<open>create\<close> for id 1 binds the entity it built (address 1), and the second \<open>create\<close>
  for id 1 finds the proxy again and binds the entity it built (address 2) in place
  of the first.
\<close>

theorem second_create_replaces_delegate:
  "\<forall>N. (case getReference User (Num 1) (init_state N) of
           (p, s1) \<Rightarrow>
             p = Inr 0 \<and> delegate s1 0 = None \<and>
             (case create User (Some [''id'' \<mapsto> Num 1, ''name'' \<mapsto> Str ''a'']) s1 of
                (r2, s2) \<Rightarrow>
                  r2 = Inr 0 \<and> delegate s2 0 = Some 1 \<and>
                  (case create User (Some [''id'' \<mapsto> Num 1, ''name'' \<mapsto> Str ''b'']) s2 of
                     (r3, s3) \<Rightarrow> r3 = Inr 0 \<and> delegate s3 0 = Some 2)))"
  by (intro allI conjI; code_simp)

section \<open>Writing a property\<close>

text \<open>
  C8, as stated, fails in three ways. Writing \<open>pin\<close> of a card, which is persistable
  but not readable, marks the card dirty and stores the value, but \<open>toArray\<close> reads the
  property through its accessor, which has no getter, and exports
  \<open>reverseTransform(undefined)\<close>. Writing \<open>memo\<close>, which is not persistable, stores
  the value, and \<open>toArray\<close> has no key for it. Writing \<open>undefined\<close> to \<open>owner\<close> of
  an account, whose transform throws on it, marks the account dirty, throws and stores
  nothing.
\<close>

theorem write_not_exported_counterexample:
  "\<forall>N. (case create Card (Some [''id'' \<mapsto> Num 1, ''pin'' \<mapsto> Str ''0000'']) (init_state N) of
           (r1, s1) \<Rightarrow>
             r1 = Inr 0 \<and>
             (case set_prop s1 0 ''pin'' (Str ''1234'') of
                (r2, s2) \<Rightarrow>
                  r2 = Inr () \<and>
                  (case heap s2 0 of
                     Some (Entity e) \<Rightarrow> e_dirty e \<and> e_values e ''pin'' = Some (Str ''1234'')
                   | _ \<Rightarrow> False) \<and>
                  (case toArray s2 0 of Inr m \<Rightarrow> m ''pin'' = Some Undefined | Inl x \<Rightarrow> False))) \<and>
        (case create Card (Some [''id'' \<mapsto> Num 1, ''memo'' \<mapsto> Str ''a'']) (init_state N) of
           (r1, s1) \<Rightarrow>
             r1 = Inr 0 \<and>
             (case set_prop s1 0 ''memo'' (Str ''b'') of
                (r2, s2) \<Rightarrow>
                  r2 = Inr () \<and>
                  (case heap s2 0 of
                     Some (Entity e) \<Rightarrow> e_dirty e \<and> e_values e ''memo'' = Some (Str ''b'')
                   | _ \<Rightarrow> False) \<and>
                  (case toArray s2 0 of Inr m \<Rightarrow> m ''memo'' = None | Inl x \<Rightarrow> False))) \<and>
        (case create Account (Some [''id'' \<mapsto> Num 1, ''owner'' \<mapsto> Str ''ann'']) (init_state N) of
           (r1, s1) \<Rightarrow>
             r1 = Inr 0 \<and>
             (case set_prop s1 0 ''owner'' Undefined of
                (r2, s2) \<Rightarrow>
                  r2 = Inl (Error ''owner is required'') \<and>
                  (case heap s2 0 of
                     Some (Entity e) \<Rightarrow> e_dirty e \<and> e_values e ''owner'' = Some (Str ''ann'')
                   | _ \<Rightarrow> False)))"
  by (intro allI conjI; code_simp)

text \<open>
  C8, amended. Let an entity carry the accessor of a writable schema property, as every
  entity that \<open>create\<close> builds does. Assigning \<open>v\<close> to the property, when
  \<open>transform(v)\<close> returns \<open>w\<close>, succeeds, sets \<open>$dirty\<close>, stores \<open>w\<close> in
  \<open>$values\<close> and changes nothing else. Every record \<open>toArray\<close> returns afterwards maps
  the property to \<open>reverseTransform(w)\<close> when the property is persistable and readable,
  to \<open>reverseTransform(undefined)\<close> when it is persistable and not readable, and has
  no key for it when it is not persistable. When the property is persistable and
  readable, \<open>toArray\<close> returned \<open>m0\<close> before the write and \<open>reverseTransform(w)\<close>
  returns \<open>u\<close>, then \<open>toArray\<close> returns \<open>m0\<close> with the property set to \<open>u\<close> after
  the write.
\<close>

theorem write_marks_dirty_and_stores:
  assumes ent: "heap s a = Some (Entity e)"
      and acc: "e_accessors e n = Some p"
      and wr: "writable p"
      and tr: "transform p = Some t" "t v = Inr w"
  shows "case set_prop s a n v of
           (res, s1) \<Rightarrow>
             res = Inr () \<and> objectMap s1 = objectMap s \<and>
             heap s1 = (heap s)(a \<mapsto> Entity (e\<lparr>e_dirty := True, e_values := (e_values e)(n \<mapsto> w)\<rparr>)) \<and>
             (distinct (map fst (c_schema (e_proto e))) \<and> (n, p) \<in> set (c_schema (e_proto e)) \<longrightarrow>
                (\<forall>m. toArray s1 a = Inr m \<longrightarrow>
                   (if persistable p
                    then \<exists>r u. reverseTransform p = Some r \<and>
                           r (if readable p then w else Undefined) = Inr u \<and> m n = Some u
                    else m n = None)) \<and>
                (persistable p \<and> readable p \<longrightarrow>
                   (\<forall>m0 r u. toArray s a = Inr m0 \<and> reverseTransform p = Some r \<and> r w = Inr u \<longrightarrow>
                      toArray s1 a = Inr (m0(n \<mapsto> u)))))"
proof -
  let ?e1 = "e\<lparr>e_dirty := True, e_values := (e_values e)(n \<mapsto> w)\<rparr>"
  let ?s1 = "s\<lparr>heap := (heap s)(a \<mapsto> Entity ?e1)\<rparr>"
  let ?ps = "c_schema (e_proto e)"
  have sp: "set_prop s a n v = (Inr (), ?s1)"
    using assms by (rule set_prop_entity_writable)
  have h1: "heap ?s1 a = Some (Entity ?e1)" by simp
  have sch: "schema_of ?s1 a = ?ps" "schema_of s a = ?ps"
    using ent by (simp_all add: schema_of_def)
  have read_n: "entity_get ?e1 n = (if readable p then w else Undefined)"
    using acc by (simp add: entity_get_def lookup_def)
  have get_n: "readable p \<Longrightarrow> entity_get ?e1 n = w"
    using read_n by simp
  have get_other: "\<And>k. k \<noteq> n \<Longrightarrow> entity_get ?e1 k = entity_get e k"
    by (simp add: entity_get_def lookup_def split: option.splits)
  have toA: "toArray ?s1 a = toArray_loop ?s1 a ?ps Map.empty" "toArray s a = toArray_loop s a ?ps Map.empty"
    by (simp_all add: toArray_def sch)
  {
    assume d: "distinct (map fst ?ps)" and mem: "(n, p) \<in> set ?ps"
    have part1: "if persistable p
                 then \<exists>r u. reverseTransform p = Some r \<and>
                        r (if readable p then w else Undefined) = Inr u \<and> m n = Some u
                 else m n = None"
      if ta: "toArray ?s1 a = Inr m" for m
    proof -
      from ta toA have loop: "toArray_loop ?s1 a ?ps Map.empty = Inr m" by simp
      note en = toArray_loop_entries [OF h1 d loop]
      show ?thesis
      proof (cases "persistable p")
        case True
        with en mem obtain r u where
          "reverseTransform p = Some r" "r (entity_get ?e1 n) = Inr u" "m n = Some u" by blast
        with True show ?thesis unfolding read_n by simp
      next
        case False
        have "\<forall>q. (n, q) \<in> set ?ps \<longrightarrow> \<not> persistable q"
        proof (intro allI impI)
          fix q assume "(n, q) \<in> set ?ps"
          then have "q = p" by (rule schema_key_unique [OF d _ mem])
          with False show "\<not> persistable q" by simp
        qed
        with en have "m n = Map.empty n" by blast
        with False show ?thesis by simp
      qed
    qed
    have part2: "toArray ?s1 a = Inr (m0(n \<mapsto> u))"
      if pr: "persistable p" "readable p"
        and before: "toArray s a = Inr m0" and r: "reverseTransform p = Some r" "r w = Inr u" for m0 r u
    proof -
      from toArray_loop_entries [OF ent d, of Map.empty m0] before toA have
        b1: "\<forall>k q. (k, q) \<in> set ?ps \<longrightarrow> persistable q \<longrightarrow>
              (\<exists>r w. reverseTransform q = Some r \<and> r (entity_get e k) = Inr w \<and> m0 k = Some w)" and
        b2: "\<forall>k. (\<forall>q. (k, q) \<in> set ?ps \<longrightarrow> \<not> persistable q) \<longrightarrow> m0 k = None"
        by auto
      have ok: "\<forall>(k, q) \<in> set ?ps. persistable q \<longrightarrow>
          (\<exists>r w. reverseTransform q = Some r \<and> r (entity_get ?e1 k) = Inr w)"
      proof (clarify)
        fix k q assume kq: "(k, q) \<in> set ?ps" "persistable q"
        show "\<exists>r w. reverseTransform q = Some r \<and> r (entity_get ?e1 k) = Inr w"
        proof (cases "k = n")
          case True
          with kq mem d have "q = p" by (auto dest: schema_key_unique)
          with True r get_n [OF pr(2)] show ?thesis by simp
        next
          case False
          from b1 kq obtain r' w' where "reverseTransform q = Some r'" "r' (entity_get e k) = Inr w'"
            by blast
          with get_other [OF False] show ?thesis by simp
        qed
      qed
      from toArray_loop_returns [OF h1 ok, of Map.empty] obtain m1 where
        m1: "toArray_loop ?s1 a ?ps Map.empty = Inr m1" by blast
      from toArray_loop_entries [OF h1 d m1] have
        a1: "\<forall>k q. (k, q) \<in> set ?ps \<longrightarrow> persistable q \<longrightarrow>
              (\<exists>r w. reverseTransform q = Some r \<and> r (entity_get ?e1 k) = Inr w \<and> m1 k = Some w)" and
        a2: "\<forall>k. (\<forall>q. (k, q) \<in> set ?ps \<longrightarrow> \<not> persistable q) \<longrightarrow> m1 k = None"
        by auto
      have "m1 k = (m0(n \<mapsto> u)) k" for k
      proof (cases "\<exists>q. (k, q) \<in> set ?ps \<and> persistable q")
        case False
        then have "m1 k = None" "m0 k = None" "k \<noteq> n" using a2 b2 mem pr by auto
        then show ?thesis by simp
      next
        case True
        then obtain q where kq: "(k, q) \<in> set ?ps" "persistable q" by blast
        show ?thesis
        proof (cases "k = n")
          case True
          with kq mem d have "q = p" by (auto dest: schema_key_unique)
          with a1 kq True obtain r' w' where
            "reverseTransform p = Some r'" "r' (entity_get ?e1 n) = Inr w'" "m1 n = Some w'"
            by blast
          with r get_n [OF pr(2)] True show ?thesis by simp
        next
          case False
          from a1 kq obtain r1 w1 where
            x1: "reverseTransform q = Some r1" "r1 (entity_get ?e1 k) = Inr w1" "m1 k = Some w1"
            by blast
          from b1 kq obtain r0 w0 where
            x0: "reverseTransform q = Some r0" "r0 (entity_get e k) = Inr w0" "m0 k = Some w0"
            by blast
          from x1 x0 get_other [OF False] False show ?thesis by simp
        qed
      qed
      then have "m1 = m0(n \<mapsto> u)" by (rule ext)
      with m1 toA show ?thesis by simp
    qed
    note part1 part2
  }
  then have tail: "distinct (map fst ?ps) \<and> (n, p) \<in> set ?ps \<longrightarrow>
      (\<forall>m. toArray ?s1 a = Inr m \<longrightarrow>
         (if persistable p
          then \<exists>r u. reverseTransform p = Some r \<and>
                 r (if readable p then w else Undefined) = Inr u \<and> m n = Some u
          else m n = None)) \<and>
      (persistable p \<and> readable p \<longrightarrow>
         (\<forall>m0 r u. toArray s a = Inr m0 \<and> reverseTransform p = Some r \<and> r w = Inr u \<longrightarrow>
            toArray ?s1 a = Inr (m0(n \<mapsto> u))))"
    by blast
  have "objectMap ?s1 = objectMap s" "heap ?s1 = (heap s)(a \<mapsto> Entity ?e1)" by simp_all
  with tail show ?thesis
    unfolding sp prod.case by blast
qed

theorem write_marks_dirty_and_stores_witness:
  "fst (set_prop (snd (create User (Some [''id'' \<mapsto> Num 7, ''name'' \<mapsto> Str ''Ann''])
                         (init_state decimal)))
         0 ''name'' (Str ''Bob'')) = Inr () \<and>
   (\<exists>m. toArray (snd (set_prop (snd (create User (Some [''id'' \<mapsto> Num 7, ''name'' \<mapsto> Str ''Ann''])
                                      (init_state decimal))) 0 ''name'' (Str ''Bob''))) 0 = Inr m \<and>
        m ''name'' = Some (Str ''Bob''))"
proof -
  let ?data = "Some [''id'' \<mapsto> Num 7, ''name'' \<mapsto> Str ''Ann'']"
  let ?s1 = "snd (create User ?data (init_state decimal))"
  let ?s2 = "snd (set_prop ?s1 0 ''name'' (Str ''Bob''))"
  have d: "distinct (map fst (c_schema User))" by (simp add: User_def)
  have "fst (create User ?data (init_state decimal)) = Inr 0" by code_simp
  then have cr: "create User ?data (init_state decimal) = (Inr 0, ?s1)" by (simp add: prod_eq_iff)
  have np: "\<not> is_proxy ?s1 0" by code_simp
  from create_returns_loaded_entity [OF d well_tracked_init cr np] obtain e where
    e: "heap ?s1 0 = Some (Entity e)" and l: "loaded User (or_empty ?data) e" by blast
  from l have acc: "e_accessors e ''name'' = Some plain" and proto: "e_proto e = User"
    by (simp_all add: loaded_def User_def)
  have w: "writable plain" and t: "transform plain = Some Inr" by (simp_all add: plain_def)
  have ret: "case toArray ?s2 0 of Inr m \<Rightarrow> True | Inl x \<Rightarrow> False" by code_simp
  then obtain m where m: "toArray ?s2 0 = Inr m" by (cases "toArray ?s2 0") simp_all
  from write_marks_dirty_and_stores [OF e acc w t, of "Str ''Bob''" "Str ''Bob''"] proto d m
  show ?thesis
    by (auto simp add: case_prod_beta User_def plain_def)
qed


end
